theory Spec2Isabelle
  imports Complex_Main
begin

section \<open>Text and the regular expressions of process-listeners.ts\<close>

text \<open>
  Text is modelled as \<^typ>\<open>string\<close>: a list of 8-bit characters, read as the code units of the
  JavaScript string. The line terminators of a JavaScript regular expression that exist in this
  type are line feed and carriage return (U+2028 and U+2029 lie outside it).

  Every regular expression of the source is translated by hand into a matcher that follows the
  backtracking semantics of the pattern; the pattern is quoted above each matcher.
\<close>

definition LF :: char where
  "LF = CHR 0x0A"

definition LineTerminator :: "char \<Rightarrow> bool" where
  "LineTerminator c = (c = CHR 0x0A \<or> c = CHR 0x0D)"

text \<open>\<open>^\<close> under the \<open>m\<close> flag: the start of the input or the position after a line terminator.
  The first argument is the character before the position (\<open>None\<close> at the start).\<close>

definition at_line_start :: "char option \<Rightarrow> bool" where
  "at_line_start prev = (case prev of None \<Rightarrow> True | Some c \<Rightarrow> LineTerminator c)"

text \<open>The \<open>i\<close> flag compares characters after upper-casing. All pattern characters of the source
  are ASCII, and a character outside ASCII never upper-cases into ASCII, so upper-casing
  \<open>a\<close>..\<open>z\<close> alone decides every comparison against a pattern character.\<close>

definition canonicalize :: "char \<Rightarrow> nat" where
  "canonicalize c = (let n = of_char c in if 97 \<le> n \<and> n \<le> 122 then n - 32 else n)"

text \<open>A literal (case-insensitive) piece of a pattern matched at the head of the input:
  the rest of the input after it, or \<open>None\<close>.\<close>

fun ci_strip :: "string \<Rightarrow> string \<Rightarrow> string option" where
  "ci_strip [] s = Some s"
| "ci_strip (p # ps) [] = None"
| "ci_strip (p # ps) (c # cs) =
     (if canonicalize p = canonicalize c then ci_strip ps cs else None)"

text \<open>\<open>\d\<close>\<close>

definition is_digit :: "char \<Rightarrow> bool" where
  "is_digit c = (48 \<le> (of_char c :: nat) \<and> (of_char c :: nat) \<le> 57)"

text \<open>A pattern without the \<open>g\<close> flag is tried at every start position from left to right; the
  first position where it matches wins. The matcher is given the character before the position
  and the input from the position on.\<close>

fun exec :: "(char option \<Rightarrow> string \<Rightarrow> 'a option) \<Rightarrow> char option \<Rightarrow> string \<Rightarrow> 'a option" where
  "exec m prev [] = m prev []"
| "exec m prev (c # cs) =
     (case m prev (c # cs) of Some r \<Rightarrow> Some r | None \<Rightarrow> exec m (Some c) cs)"

text \<open>\<open>String.prototype.includes\<close> (case-sensitive substring test).\<close>

fun starts_with :: "string \<Rightarrow> string \<Rightarrow> bool" where
  "starts_with s [] = True"
| "starts_with [] (p # ps) = False"
| "starts_with (c # cs) (p # ps) = (c = p \<and> starts_with cs ps)"

fun includes_str :: "string \<Rightarrow> string \<Rightarrow> bool" where
  "includes_str [] pat = starts_with [] pat"
| "includes_str (c # cs) pat = (starts_with (c # cs) pat \<or> includes_str cs pat)"

text \<open>\<open>[\s\S]*\<close> followed by the rest \<open>k\<close> of a pattern: \<open>k\<close> matches at the position or at some
  later one.\<close>

fun anywhere :: "(string \<Rightarrow> bool) \<Rightarrow> string \<Rightarrow> bool" where
  "anywhere k [] = k []"
| "anywhere k (c # cs) = (k (c # cs) \<or> anywhere k cs)"

subsection \<open>SnapshotFailRegex\<close>

text \<open>\<^verbatim>\<open>/(snapshots? failed)|(snapshot test failed)/i\<close>\<close>

definition SnapshotFailRegex_at :: "string \<Rightarrow> bool" where
  "SnapshotFailRegex_at s =
     ((case ci_strip ''snapshot'' s of
         None \<Rightarrow> False
       | Some r \<Rightarrow>
           (case ci_strip ''s'' r of
              Some r' \<Rightarrow> ci_strip '' failed'' r' \<noteq> None
            | None \<Rightarrow> False)
           \<or> ci_strip '' failed'' r \<noteq> None)
      \<or> ci_strip ''snapshot test failed'' s \<noteq> None)"

definition SnapshotFailRegex_test :: "string \<Rightarrow> bool" where
  "SnapshotFailRegex_test s = anywhere SnapshotFailRegex_at s"

subsection \<open>IS_OUTSIDE_REPOSITORY_REGEXP\<close>

text \<open>\<^verbatim>\<open>/Test suite failed to run[\s\S]*fatal:[\s\S]*is outside repository/im\<close>\<close>

definition IS_OUTSIDE_REPOSITORY_REGEXP_test :: "string \<Rightarrow> bool" where
  "IS_OUTSIDE_REPOSITORY_REGEXP_test s =
     anywhere (\<lambda>s1. case ci_strip ''Test suite failed to run'' s1 of
         None \<Rightarrow> False
       | Some r1 \<Rightarrow> anywhere (\<lambda>s2. case ci_strip ''fatal:'' s2 of
             None \<Rightarrow> False
           | Some r2 \<Rightarrow> anywhere (\<lambda>s3. ci_strip ''is outside repository'' s3 \<noteq> None) r2) r1) s"

subsection \<open>WATCH_IS_NOT_SUPPORTED_REGEXP\<close>

text \<open>\<^verbatim>\<open>/^s*--watch is not supported without git\/hg, please use --watchAlls*/im\<close>

  The pattern has a literal \<open>s*\<close> on both sides (not \<open>\s*\<close>): at a line start, any number of
  letters \<open>s\<close> or \<open>S\<close>, then the message. The message starts with \<open>-\<close>, so the greedy \<open>s*\<close>
  can only succeed having taken every leading \<open>s\<close>; the trailing \<open>s*\<close> always matches.\<close>

definition WATCH_IS_NOT_SUPPORTED_REGEXP_at :: "char option \<Rightarrow> string \<Rightarrow> unit option" where
  "WATCH_IS_NOT_SUPPORTED_REGEXP_at prev s =
     (if at_line_start prev then
        (case ci_strip ''--watch is not supported without git/hg, please use --watchAll''
                (dropWhile (\<lambda>c. canonicalize c = canonicalize CHR ''s'') s) of
           None \<Rightarrow> None
         | Some _ \<Rightarrow> Some ())
      else None)"

definition WATCH_IS_NOT_SUPPORTED_REGEXP_test :: "string \<Rightarrow> bool" where
  "WATCH_IS_NOT_SUPPORTED_REGEXP_test s = (exec WATCH_IS_NOT_SUPPORTED_REGEXP_at None s \<noteq> None)"

subsection \<open>RUN_EXEC_ERROR\<close>

text \<open>\<^verbatim>\<open>/onRunComplete: execError: (.*)/im\<close>: the result is capture group 1, the rest of the
  line (\<open>.\<close> matches every character but a line terminator).\<close>

definition RUN_EXEC_ERROR_at :: "char option \<Rightarrow> string \<Rightarrow> string option" where
  "RUN_EXEC_ERROR_at prev s =
     (case ci_strip ''onRunComplete: execError: '' s of
        None \<Rightarrow> None
      | Some r \<Rightarrow> Some (takeWhile (\<lambda>c. \<not> LineTerminator c) r))"

definition RUN_EXEC_ERROR_match :: "string \<Rightarrow> string option" where
  "RUN_EXEC_ERROR_match s = exec RUN_EXEC_ERROR_at None s"

subsection \<open>RUN_START_TEST_SUITES_REGEX\<close>

text \<open>\<^verbatim>\<open>/onRunStart: numTotalTestSuites: ((\d)+)/im\<close>: the result is capture group 1, the
  longest run of digits after the label.\<close>

definition RUN_START_TEST_SUITES_REGEX_at :: "char option \<Rightarrow> string \<Rightarrow> string option" where
  "RUN_START_TEST_SUITES_REGEX_at prev s =
     (case ci_strip ''onRunStart: numTotalTestSuites: '' s of
        None \<Rightarrow> None
      | Some r \<Rightarrow> (let ds = takeWhile is_digit r in if ds = [] then None else Some ds))"

definition RUN_START_TEST_SUITES_REGEX_match :: "string \<Rightarrow> string option" where
  "RUN_START_TEST_SUITES_REGEX_match s = exec RUN_START_TEST_SUITES_REGEX_at None s"

subsection \<open>CONTROL_MESSAGES\<close>

text \<open>\<^verbatim>\<open>/^(onRunStart|onRunComplete|Test results written to)[^\n]+\n/gim\<close>

  \<open>[^\n]+\n\<close>: at least one character that is not a line feed, then a line feed. The greedy
  \<open>+\<close> stops before the first line feed, and giving characters back cannot help, since the next
  character would then not be a line feed.\<close>

definition CONTROL_MESSAGES_keywords :: "string list" where
  "CONTROL_MESSAGES_keywords = [''onRunStart'', ''onRunComplete'', ''Test results written to'']"

definition rest_of_line :: "string \<Rightarrow> string option" where
  "rest_of_line s =
     (let body = takeWhile (\<lambda>c. c \<noteq> LF) s; r = dropWhile (\<lambda>c. c \<noteq> LF) s
      in if body = [] \<or> r = [] then None else Some (tl r))"

text \<open>The alternatives are tried in the order of the pattern; the result is the input after
  the whole match.\<close>

fun first_alternative :: "string list \<Rightarrow> string \<Rightarrow> string option" where
  "first_alternative [] s = None"
| "first_alternative (k # ks) s =
     (case ci_strip k s of
        None \<Rightarrow> first_alternative ks s
      | Some r \<Rightarrow>
          (case rest_of_line r of
             None \<Rightarrow> first_alternative ks s
           | Some t \<Rightarrow> Some t))"

definition CONTROL_MESSAGES_at :: "char option \<Rightarrow> string \<Rightarrow> string option" where
  "CONTROL_MESSAGES_at prev s =
     (if at_line_start prev then first_alternative CONTROL_MESSAGES_keywords s else None)"

lemma ci_strip_length: "ci_strip p s = Some r \<Longrightarrow> length r \<le> length s"
  by (induction p s rule: ci_strip.induct) (auto split: if_splits)

lemma rest_of_line_length: "rest_of_line s = Some t \<Longrightarrow> length t < length s"
proof -
  assume a: "rest_of_line s = Some t"
  let ?r = "dropWhile (\<lambda>c. c \<noteq> LF) s"
  from a have "?r \<noteq> []" and "t = tl ?r"
    by (auto simp: rest_of_line_def Let_def split: if_splits)
  then have "length t < length ?r" by (cases ?r) auto
  also have "length ?r \<le> length s" by (rule length_dropWhile_le)
  finally show ?thesis .
qed

lemma first_alternative_length: "first_alternative ks s = Some t \<Longrightarrow> length t < length s"
proof (induction ks)
  case Nil
  then show ?case by simp
next
  case (Cons k ks)
  then show ?case
    by (auto split: option.splits dest!: ci_strip_length rest_of_line_length)
qed

lemma CONTROL_MESSAGES_at_length:
  "CONTROL_MESSAGES_at prev s = Some t \<Longrightarrow> length t < length s"
  by (auto simp: CONTROL_MESSAGES_at_def split: if_splits dest: first_alternative_length)

text \<open>\<open>text.replace(CONTROL_MESSAGES, '')\<close>: with the \<open>g\<close> flag every match is removed, the
  search resuming at the end of the previous match (a match is never empty and ends with a
  line feed).\<close>

function replace_CONTROL_MESSAGES :: "char option \<Rightarrow> string \<Rightarrow> string" where
  "replace_CONTROL_MESSAGES prev [] = []"
| "replace_CONTROL_MESSAGES prev (c # cs) =
     (case CONTROL_MESSAGES_at prev (c # cs) of
        Some rest \<Rightarrow> replace_CONTROL_MESSAGES (Some LF) rest
      | None \<Rightarrow> c # replace_CONTROL_MESSAGES (Some c) cs)"
  by pat_completeness auto
termination
  by (relation "measure (\<lambda>(prev, s). length s)")
     (auto dest: CONTROL_MESSAGES_at_length)

subsection \<open>JsonArrayRegexp\<close>

text \<open>\<^verbatim>\<open>/^\[.*?\]$/gm\<close>: \<open>.\<close> does not match a line terminator and \<open>$\<close> holds only before
  one (or at the end), so a match starts at a line start and is the whole line up to the next
  line terminator; the line must begin with \<open>[\<close> and end with a later \<open>]\<close>.\<close>

definition JsonArrayRegexp_at :: "char option \<Rightarrow> string \<Rightarrow> string option" where
  "JsonArrayRegexp_at prev s =
     (let line = takeWhile (\<lambda>c. \<not> LineTerminator c) s
      in if at_line_start prev \<and> 2 \<le> length line \<and> hd line = CHR ''['' \<and> last line = CHR '']''
         then Some line else None)"

text \<open>\<open>buffer.match(JsonArrayRegexp)\<close>: all matches in order (the empty list stands for the
  \<open>null\<close> that \<open>match\<close> returns when there is none).\<close>

function match_JsonArrayRegexp :: "char option \<Rightarrow> string \<Rightarrow> string list" where
  "match_JsonArrayRegexp prev [] = []"
| "match_JsonArrayRegexp prev (c # cs) =
     (case JsonArrayRegexp_at prev (c # cs) of
        Some line \<Rightarrow>
          line # match_JsonArrayRegexp (Some (last line)) (drop (length line) (c # cs))
      | None \<Rightarrow> match_JsonArrayRegexp (Some c) cs)"
  by pat_completeness auto
termination
  by (relation "measure (\<lambda>(prev, s). length s)")
     (auto simp: JsonArrayRegexp_at_def Let_def split: if_splits)

section \<open>Reading the patterns\<close>

text \<open>Two notions used to say what the matchers above accept. First, two texts that the
  \<open>i\<close> flag does not tell apart.\<close>

definition same_ignoring_case :: "string \<Rightarrow> string \<Rightarrow> bool" where
  "same_ignoring_case a b = (map canonicalize a = map canonicalize b)"

text \<open>The character before the position that follows the prefix \<open>pre\<close> of the input.\<close>

definition char_before :: "char option \<Rightarrow> string \<Rightarrow> char option" where
  "char_before prev pre = (if pre = [] then prev else Some (last pre))"

section \<open>Data model\<close>

text \<open>The request of a process: its \<open>type\<close> tag (a string in the source), the truthiness of
  its optional \<open>updateSnapshot\<close> property and its optional \<open>baseRequest\<close>.\<close>

datatype JestProcessRequest =
  Request (request_type: string) (updateSnapshot: bool) (baseRequest: "JestProcessRequest option")

text \<open>The process handle as the listeners read it: \<open>request\<close> and \<open>stopReason\<close>.\<close>

record JestProcess =
  request :: JestProcessRequest
  stopReason :: "string option"

text \<open>The parsed result object of the runner, opaque to the listeners.\<close>

datatype JestTotalResults = JestTotalResults string

text \<open>\<open>JestRunEvent\<close>, with the fields each event is fired with:
  \<open>data {process, text, raw?, newLine?, isError?}\<close>,
  \<open>long-run {process, numTotalTestSuites?, threshold}\<close>,
  \<open>exit {process, error?, code?}\<close>.\<close>

datatype JestRunEvent =
    Ev_process_start JestProcess
  | Ev_start JestProcess
  | Ev_data JestProcess string "string option" "bool option" "bool option"
  | Ev_long_run JestProcess "nat option" int
  | Ev_end JestProcess
  | Ev_exit JestProcess "string option" "int option"

datatype level = Debug | Warn | Error

text \<open>What a handler does to the outside, in the order it does it: an event fired on
  \<open>onRunEvent\<close>, a call of \<open>logging\<close> (its level and its first message argument), of
  \<open>session.scheduleProcess\<close>, of \<open>process.stop\<close>, of \<open>vscode.window.showInformationMessage\<close>
  (message and button title), of \<open>session.context.updateWithData\<close> and of the \<open>onResult\<close>
  callback (files, error, exit code).\<close>

datatype effect =
    Fire JestRunEvent
  | Logging level string
  | ScheduleProcess JestProcessRequest
  | Stop JestProcess
  | ShowInformationMessage JestProcess string string
  | UpdateWithData JestTotalResults JestProcess
  | OnResult "string list option" "string option" "int option"

text \<open>The raw events of \<open>JestProcessEvent\<close> with their arguments; \<open>unexpected\<close> is any other
  event name.\<close>

datatype JestProcessEvent =
    processStarting
  | executableStdErr string
  | executableJSON JestTotalResults
  | executableOutput string
  | terminalError string
  | processClose "int option" "string option"
  | processExit "int option" "string option"
  | unexpected string

text \<open>Numbers in template strings.\<close>

definition digit_char :: "nat \<Rightarrow> char" where
  "digit_char n = char_of (48 + n)"

function string_of_nat :: "nat \<Rightarrow> string" where
  "string_of_nat n =
     (if n < 10 then [digit_char n] else string_of_nat (n div 10) @ [digit_char (n mod 10)])"
  by pat_completeness auto
termination
  by (relation "measure id") auto

definition string_of_int :: "int \<Rightarrow> string" where
  "string_of_int i = (if i < 0 then CHR ''-'' # string_of_nat (nat (- i)) else string_of_nat (nat i))"

definition string_of_code :: "int option \<Rightarrow> string" where
  "string_of_code code = (case code of None \<Rightarrow> ''undefined'' | Some c \<Rightarrow> string_of_int c)"

definition string_of_signal :: "string option \<Rightarrow> string" where
  "string_of_signal signal = (case signal of None \<Rightarrow> ''undefined'' | Some s \<Rightarrow> s)"

section \<open>AbstractProcessListener\<close>

definition isProcessError :: "int option \<Rightarrow> bool" where
  "isProcessError code = (case code of None \<Rightarrow> False | Some c \<Rightarrow> c > 1)"

definition Abstract_onProcessStarting :: "JestProcess \<Rightarrow> effect list" where
  "Abstract_onProcessStarting p =
     [Fire (Ev_process_start p),
      Logging Debug (request_type (request p) @ '' onProcessStarting'')]"

definition Abstract_onExecutableStdErr :: "JestProcess \<Rightarrow> string \<Rightarrow> string \<Rightarrow> effect list" where
  "Abstract_onExecutableStdErr p data raw =
     [Logging Debug (request_type (request p) @ '' onExecutableStdErr:'')]"

definition Abstract_onExecutableJSON :: "JestProcess \<Rightarrow> JestTotalResults \<Rightarrow> effect list" where
  "Abstract_onExecutableJSON p data =
     [Logging Debug (request_type (request p) @ '' onExecutableJSON:'')]"

definition Abstract_onExecutableOutput :: "JestProcess \<Rightarrow> string \<Rightarrow> string \<Rightarrow> effect list" where
  "Abstract_onExecutableOutput p data raw =
     [Logging Debug (request_type (request p) @ '' onExecutableOutput:'')]"

definition Abstract_onTerminalError :: "JestProcess \<Rightarrow> string \<Rightarrow> string \<Rightarrow> effect list" where
  "Abstract_onTerminalError p data raw =
     [Logging Error (request_type (request p) @ '' onTerminalError:'')]"

definition Abstract_onProcessClose :: "JestProcess \<Rightarrow> effect list" where
  "Abstract_onProcessClose p = []"

definition Abstract_onProcessExit :: "JestProcess \<Rightarrow> int option \<Rightarrow> string option \<Rightarrow> effect list" where
  "Abstract_onProcessExit p code signal =
     (if isProcessError code then
        [Logging Warn (request_type (request p) @ '' onProcessExit: process exit with code=''
           @ string_of_code code @ '', signal='' @ string_of_signal signal @ '' :'')]
      else [])"

definition unexpected_event :: "string \<Rightarrow> effect list" where
  "unexpected_event event =
     [Logging Warn (''received unexpected event \"'' @ event @ ''\" for process:'')]"

section \<open>ListTestFileListener\<close>

text \<open>What \<open>JSON.parse\<close> returns.\<close>

datatype json =
    JNull
  | JBool bool
  | JNumber rat
  | JString string
  | JArray "json list"
  | JObject "(string \<times> json) list"

text \<open>What a \<open>try\<close> block catches.\<close>

datatype js_error = SyntaxError string | TypeError string

text \<open>The truthiness that \<open>files.filter((f) => f)\<close> tests.\<close>

fun truthy :: "json \<Rightarrow> bool" where
  "truthy JNull = False"
| "truthy (JBool b) = b"
| "truthy (JNumber x) = (x \<noteq> 0)"
| "truthy (JString s) = (s \<noteq> [])"
| "truthy (JArray _) = True"
| "truthy (JObject _) = True"

text \<open>Functions the listeners call that are defined outside process-listeners.ts: \<open>cleanAnsi\<close>
  and \<open>toErrorString\<close> of helpers, \<open>JSON.parse\<close>, and \<open>vscode.Uri.file(f).fsPath\<close>. They are
  parameters of the model; the last two may throw.\<close>

record Externals =
  cleanAnsi :: "string \<Rightarrow> string"
  toErrorString :: "js_error \<Rightarrow> string"
  JSON_parse :: "string \<Rightarrow> js_error + json"
  Uri_file_fsPath :: "json \<Rightarrow> js_error + string"

record ListTestFileListener =
  buffer :: string
  stderrOutput :: string
  listExitCode :: "int option"

text \<open>The initial field values of the class.\<close>

definition new_ListTestFileListener :: ListTestFileListener where
  "new_ListTestFileListener = \<lparr>buffer = [], stderrOutput = [], listExitCode = None\<rparr>"

definition List_onExecutableOutput :: "string \<Rightarrow> ListTestFileListener \<Rightarrow> effect list \<times> ListTestFileListener" where
  "List_onExecutableOutput data l = ([], l\<lparr>buffer := buffer l @ data\<rparr>)"

definition List_onExecutableStdErr ::
  "JestProcess \<Rightarrow> string \<Rightarrow> string \<Rightarrow> ListTestFileListener \<Rightarrow> effect list \<times> ListTestFileListener" where
  "List_onExecutableStdErr p message raw l =
     (Abstract_onExecutableStdErr p message raw, l\<lparr>stderrOutput := stderrOutput l @ raw\<rparr>)"

definition List_onProcessExit ::
  "JestProcess \<Rightarrow> int option \<Rightarrow> string option \<Rightarrow> ListTestFileListener \<Rightarrow> effect list \<times> ListTestFileListener" where
  "List_onProcessExit p code signal l =
     (Abstract_onProcessExit p code signal, l\<lparr>listExitCode := code\<rparr>)"

text \<open>\<open>files.filter((f) => f).map((f) => vscode.Uri.file(f).fsPath)\<close>: the first element that
  throws ends the \<open>map\<close>.\<close>

fun map_fsPath :: "Externals \<Rightarrow> json list \<Rightarrow> js_error + string list" where
  "map_fsPath X [] = Inr []"
| "map_fsPath X (f # fs) =
     (case Uri_file_fsPath X f of
        Inl e \<Rightarrow> Inl e
      | Inr path \<Rightarrow> (case map_fsPath X fs of Inl e \<Rightarrow> Inl e | Inr paths \<Rightarrow> Inr (path # paths)))"

text \<open>\<open>json.reduce((totalFiles, list) => ..., [])\<close>. A parsed value that is not an array has no
  \<open>filter\<close> method, so the call throws a TypeError.\<close>

fun reduce_files :: "Externals \<Rightarrow> string list \<Rightarrow> string list \<Rightarrow> js_error + string list" where
  "reduce_files X totalFiles [] = Inr totalFiles"
| "reduce_files X totalFiles (list # rest) =
     (case JSON_parse X list of
        Inl e \<Rightarrow> Inl e
      | Inr (JArray files) \<Rightarrow>
          (case map_fsPath X (filter truthy files) of
             Inl e \<Rightarrow> Inl e
           | Inr paths \<Rightarrow> reduce_files X (totalFiles @ paths) rest)
      | Inr _ \<Rightarrow> Inl (TypeError ''files.filter is not a function''))"

definition List_onProcessClose ::
  "Externals \<Rightarrow> JestProcess \<Rightarrow> ListTestFileListener \<Rightarrow> effect list \<times> ListTestFileListener" where
  "List_onProcessClose X p l =
     (if listExitCode l \<noteq> Some 0 then
        (Abstract_onProcessClose p @ [OnResult None (Some (stderrOutput l)) (listExitCode l)], l)
      else
        (case match_JsonArrayRegexp None (buffer l) of
           [] \<Rightarrow>
             (Abstract_onProcessClose p
                @ [Logging Debug ''no test file is found'', OnResult (Some []) None None], l)
         | json \<Rightarrow>
             (case reduce_files X [] json of
                Inr uriFiles \<Rightarrow>
                  (Abstract_onProcessClose p
                     @ [Logging Debug (''got '' @ string_of_nat (length uriFiles) @ '' test files''),
                        OnResult (Some uriFiles) None None], l)
              | Inl e \<Rightarrow>
                  (Abstract_onProcessClose p
                     @ [Logging Warn ''failed to parse result:'',
                        OnResult None (Some (toErrorString X e)) (listExitCode l)], l))))"

text \<open>\<open>onEvent\<close> as the listing listener inherits it.\<close>

fun List_onEvent ::
  "Externals \<Rightarrow> JestProcess \<Rightarrow> JestProcessEvent \<Rightarrow> ListTestFileListener \<Rightarrow> effect list \<times> ListTestFileListener" where
  "List_onEvent X p processStarting l = (Abstract_onProcessStarting p, l)"
| "List_onEvent X p (executableStdErr d) l = List_onExecutableStdErr p (cleanAnsi X d) d l"
| "List_onEvent X p (executableJSON j) l = (Abstract_onExecutableJSON p j, l)"
| "List_onEvent X p (executableOutput str) l = List_onExecutableOutput (cleanAnsi X str) l"
| "List_onEvent X p (terminalError str) l = (Abstract_onTerminalError p (cleanAnsi X str) str, l)"
| "List_onEvent X p (processClose code signal) l = List_onProcessClose X p l"
| "List_onEvent X p (processExit code signal) l = List_onProcessExit p code signal l"
| "List_onEvent X p (unexpected event) l = (unexpected_event event, l)"

text \<open>A sequence of raw events delivered to one listener, with everything it does in order.\<close>

fun List_run ::
  "Externals \<Rightarrow> JestProcess \<Rightarrow> JestProcessEvent list \<Rightarrow> ListTestFileListener \<Rightarrow> effect list \<times> ListTestFileListener" where
  "List_run X p [] l = ([], l)"
| "List_run X p (e # es) l =
     (case List_onEvent X p e l of
        (out, l') \<Rightarrow> (case List_run X p es l' of (out', l'') \<Rightarrow> (out @ out', l'')))"

section \<open>Long-run monitor\<close>

text \<open>The setting \<open>jest.monitorLongRun\<close> (type \<open>MonitorLongRun\<close> of Settings, declared in
  package.json as a string or an integer).\<close>

datatype MonitorLongRun = Number int | Text string

definition DEFAULT_LONG_RUN_THRESHOLD :: int where
  "DEFAULT_LONG_RUN_THRESHOLD = 60000"

text \<open>\<open>timer\<close> is the pending timeout, with its delay; \<open>None\<close> is \<open>undefined\<close>.\<close>

record LongRunMonitor =
  thresholdMs :: int
  timer :: "int option"

text \<open>The constructor.\<close>

definition new_LongRunMonitor :: "MonitorLongRun option \<Rightarrow> LongRunMonitor" where
  "new_LongRunMonitor option =
     (case option of
        None \<Rightarrow> \<lparr>thresholdMs = DEFAULT_LONG_RUN_THRESHOLD, timer = None\<rparr>
      | Some (Number n) \<Rightarrow>
          (if n > 0 then \<lparr>thresholdMs = n, timer = None\<rparr>
           else \<lparr>thresholdMs = - 1, timer = None\<rparr>)
      | Some (Text _) \<Rightarrow> \<lparr>thresholdMs = - 1, timer = None\<rparr>)"

definition cancel :: "LongRunMonitor \<Rightarrow> LongRunMonitor" where
  "cancel m = (case timer m of Some _ \<Rightarrow> m\<lparr>timer := None\<rparr> | None \<Rightarrow> m)"

text \<open>\<open>start()\<close>, with the warning it logs when a timer is already pending.\<close>

definition start :: "LongRunMonitor \<Rightarrow> effect list \<times> LongRunMonitor" where
  "start m =
     (if thresholdMs m \<le> 0 then ([], m)
      else
        (case timer m of
           Some _ \<Rightarrow>
             ([Logging Warn ''LongRunMonitor is already runninng''],
              (cancel m)\<lparr>timer := Some (thresholdMs m)\<rparr>)
         | None \<Rightarrow> ([], m\<lparr>timer := Some (thresholdMs m)\<rparr>)))"

section \<open>RunTestListener\<close>

record RunInfo =
  process :: JestProcess
  numTotalTestSuites :: "nat option"

text \<open>What the listener reads from its session: the settings \<open>enableSnapshotUpdateMessages\<close> and
  \<open>monitorLongRun\<close>, and the name of the workspace.\<close>

record ListenerSession =
  enableSnapshotUpdateMessages :: bool
  monitorLongRun :: "MonitorLongRun option"
  workspace_name :: string

record RunTestListener =
  session :: ListenerSession
  longRunMonitor :: LongRunMonitor
  runInfo :: "RunInfo option"
  exitCode :: "int option"

text \<open>The constructor.\<close>

definition new_RunTestListener :: "ListenerSession \<Rightarrow> RunTestListener" where
  "new_RunTestListener ss =
     \<lparr>session = ss, longRunMonitor = new_LongRunMonitor (monitorLongRun ss),
      runInfo = None, exitCode = None\<rparr>"

definition onLongRun :: "RunTestListener \<Rightarrow> effect list" where
  "onLongRun l =
     (case runInfo l of
        Some info \<Rightarrow>
          [Fire (Ev_long_run (process info) (numTotalTestSuites info)
                   (thresholdMs (longRunMonitor l)))]
      | None \<Rightarrow> [])"

text \<open>The callback given to \<open>setTimeout\<close> in \<open>start()\<close>: it runs when the pending timeout
  expires, which the runtime does only for a timeout that was not cleared.\<close>

definition timer_expired :: "RunTestListener \<Rightarrow> effect list \<times> RunTestListener" where
  "timer_expired l =
     (case timer (longRunMonitor l) of
        None \<Rightarrow> ([], l)
      | Some _ \<Rightarrow> (onLongRun l, l\<lparr>longRunMonitor := (longRunMonitor l)\<lparr>timer := None\<rparr>\<rparr>))"

definition runEnded :: "RunTestListener \<Rightarrow> RunTestListener" where
  "runEnded l = l\<lparr>longRunMonitor := cancel (longRunMonitor l), runInfo := None\<rparr>"

definition runStarted :: "RunInfo \<Rightarrow> RunTestListener \<Rightarrow> effect list \<times> RunTestListener" where
  "runStarted info l =
     (case start (longRunMonitor l) of
        (out, m) \<Rightarrow> (out, l\<lparr>runInfo := Some info, longRunMonitor := m\<rparr>))"

definition shouldIgnoreOutput :: "string \<Rightarrow> bool" where
  "shouldIgnoreOutput text = (length text \<le> 0 \<or> includes_str text ''Watch Usage'')"

definition cleanupOutput :: "string \<Rightarrow> string" where
  "cleanupOutput text = replace_CONTROL_MESSAGES None text"

text \<open>The prompt is answered later; \<open>snapshot_prompt_answered\<close> is the \<open>then\<close> callback.\<close>

definition handleSnapshotTestFailuer :: "JestProcess \<Rightarrow> string \<Rightarrow> RunTestListener \<Rightarrow> effect list" where
  "handleSnapshotTestFailuer p data l =
     (if updateSnapshot (request p) then []
      else if enableSnapshotUpdateMessages (session l) \<and> SnapshotFailRegex_test data then
        (let msg = (if request_type (request p) = ''watch-all-tests''
                       \<or> request_type (request p) = ''watch-tests''
                    then ''all files'' else ''files in this run'')
         in [ShowInformationMessage p
               (''['' @ workspace_name (session l) @ ''] Would you like to update snapshots for ''
                  @ msg @ ''?'')
               ''Replace them''])
      else [])"

definition snapshot_prompt_answered :: "JestProcess \<Rightarrow> bool \<Rightarrow> effect list" where
  "snapshot_prompt_answered p response =
     (if response then
        [ScheduleProcess (Request ''update-snapshot'' False (Some (request p))),
         Fire (Ev_data p ''Updating snapshots...'' None (Some True) None)]
      else [])"

definition handleWatchNotSupportedError :: "JestProcess \<Rightarrow> string \<Rightarrow> effect list" where
  "handleWatchNotSupportedError p data =
     (if IS_OUTSIDE_REPOSITORY_REGEXP_test data \<or> WATCH_IS_NOT_SUPPORTED_REGEXP_test data then
        (if request_type (request p) \<noteq> ''watch-tests'' then
           [Logging Warn (''detected watch not supported message in a not-watch process \"''
              @ request_type (request p) @ ''\", will ignore this error'')]
         else
           [Logging Debug ''--watch is not supported, will start the --watchAll run instead'',
            ScheduleProcess (Request ''watch-all-tests'' False None),
            Stop p])
      else [])"

definition handleWatchProcessCrash :: "JestProcess \<Rightarrow> effect list \<times> string option" where
  "handleWatchProcessCrash p =
     (if (request_type (request p) = ''watch-tests''
            \<or> request_type (request p) = ''watch-all-tests'')
          \<and> stopReason p \<noteq> Some ''on-demand''
      then
        (let msg = ''Jest process \"'' @ request_type (request p) @ ''\" ended unexpectedly''
         in ([Logging Warn msg], Some msg))
      else ([], None))"

text \<open>\<open>Number(matched[1])\<close> for a string of decimal digits, and \<open>Number.isInteger\<close> of it. Up to
  \<open>2^53\<close> the number is the value of the digits. Above, it is that value rounded to 53
  significant bits (to nearest, ties to even); a value that rounds to \<open>2^1024\<close> or more is
  \<open>Infinity\<close>, which is not an integer (\<open>None\<close>).\<close>

fun digits_value :: "nat \<Rightarrow> string \<Rightarrow> nat" where
  "digits_value acc [] = acc"
| "digits_value acc (d # ds) = digits_value (10 * acc + (of_char d - 48)) ds"

function bit_length :: "nat \<Rightarrow> nat" where
  "bit_length n = (if n = 0 then 0 else Suc (bit_length (n div 2)))"
  by pat_completeness auto
termination
  by (relation "measure id") auto

definition Number_integer :: "string \<Rightarrow> nat option" where
  "Number_integer ds =
     (let v = digits_value 0 ds in
      if v \<le> 2 ^ 53 then Some v
      else
        (let e = bit_length v - 53; q = v div 2 ^ e; r = v mod 2 ^ e; half = 2 ^ (e - 1);
             q' = (if half < r \<or> (r = half \<and> odd q) then q + 1 else q)
         in if q' * 2 ^ e < 2 ^ 1024 then Some (q' * 2 ^ e) else None))"

definition getNumTotalTestSuites :: "string \<Rightarrow> nat option" where
  "getNumTotalTestSuites text =
     (case RUN_START_TEST_SUITES_REGEX_match text of
        Some matched1 \<Rightarrow> Number_integer matched1
      | None \<Rightarrow> None)"

definition handleRunStart :: "JestProcess \<Rightarrow> string \<Rightarrow> RunTestListener \<Rightarrow> effect list \<times> RunTestListener" where
  "handleRunStart p output l =
     (if includes_str output ''onRunStart'' then
        (case runStarted \<lparr>process = p, numTotalTestSuites = getNumTotalTestSuites output\<rparr> l of
           (out, l') \<Rightarrow> (out @ [Fire (Ev_start p)], l'))
      else ([], l))"

definition handleRunComplete :: "JestProcess \<Rightarrow> string \<Rightarrow> RunTestListener \<Rightarrow> effect list \<times> RunTestListener" where
  "handleRunComplete p output l =
     (if includes_str output ''onRunComplete'' then
        ((case RUN_EXEC_ERROR_match output of
            Some matched1 \<Rightarrow> [Fire (Ev_data p matched1 None (Some True) (Some True))]
          | None \<Rightarrow> [])
           @ [Fire (Ev_end p)],
         runEnded l)
      else ([], l))"

definition onExecutableJSON :: "JestProcess \<Rightarrow> JestTotalResults \<Rightarrow> effect list" where
  "onExecutableJSON p data = [UpdateWithData data p]"

definition onExecutableStdErr ::
  "JestProcess \<Rightarrow> string \<Rightarrow> string \<Rightarrow> RunTestListener \<Rightarrow> effect list \<times> RunTestListener" where
  "onExecutableStdErr p message raw l =
     (if shouldIgnoreOutput message then ([], l)
      else
        (let cleaned = cleanupOutput raw in
         case handleRunStart p message l of
           (out1, l1) \<Rightarrow>
             (case handleRunComplete p message l1 of
                (out2, l2) \<Rightarrow>
                  (out1
                     @ [Fire (Ev_data p message (Some cleaned) None None)]
                     @ out2
                     @ handleSnapshotTestFailuer p message l2
                     @ handleWatchNotSupportedError p message,
                   l2))))"

definition onExecutableOutput :: "JestProcess \<Rightarrow> string \<Rightarrow> string \<Rightarrow> effect list" where
  "onExecutableOutput p output raw =
     (if \<not> shouldIgnoreOutput output then [Fire (Ev_data p output (Some raw) None None)] else [])"

definition onTerminalError :: "JestProcess \<Rightarrow> string \<Rightarrow> string \<Rightarrow> effect list" where
  "onTerminalError p data raw = [Fire (Ev_data p data (Some raw) (Some True) (Some True))]"

definition onProcessExit ::
  "JestProcess \<Rightarrow> int option \<Rightarrow> string option \<Rightarrow> RunTestListener \<Rightarrow> effect list \<times> RunTestListener" where
  "onProcessExit p code signal l =
     (Abstract_onProcessExit p code signal, (runEnded l)\<lparr>exitCode := code\<rparr>)"

definition onProcessClose :: "JestProcess \<Rightarrow> RunTestListener \<Rightarrow> effect list \<times> RunTestListener" where
  "onProcessClose p l =
     (case handleWatchProcessCrash p of
        (out, error) \<Rightarrow>
          (Abstract_onProcessClose p @ out @ [Fire (Ev_exit p error (exitCode l))], l))"

text \<open>\<open>onEvent\<close> as the run listener inherits it; the first argument is \<open>cleanAnsi\<close>.\<close>

fun onEvent ::
  "(string \<Rightarrow> string) \<Rightarrow> JestProcess \<Rightarrow> JestProcessEvent \<Rightarrow> RunTestListener \<Rightarrow> effect list \<times> RunTestListener" where
  "onEvent clean p processStarting l = (Abstract_onProcessStarting p, l)"
| "onEvent clean p (executableStdErr d) l = onExecutableStdErr p (clean d) d l"
| "onEvent clean p (executableJSON j) l = (onExecutableJSON p j, l)"
| "onEvent clean p (executableOutput str) l = (onExecutableOutput p (clean str) str, l)"
| "onEvent clean p (terminalError str) l = (onTerminalError p (clean str) str, l)"
| "onEvent clean p (processClose code signal) l = onProcessClose p l"
| "onEvent clean p (processExit code signal) l = onProcessExit p code signal l"
| "onEvent clean p (unexpected event) l = (unexpected_event event, l)"

text \<open>What reaches the listener: a raw event for a process, or the expiry of the pending
  timeout.\<close>

datatype stimulus = Raw JestProcess JestProcessEvent | Expired

fun step :: "(string \<Rightarrow> string) \<Rightarrow> stimulus \<Rightarrow> RunTestListener \<Rightarrow> effect list \<times> RunTestListener" where
  "step clean (Raw p e) l = onEvent clean p e l"
| "step clean Expired l = timer_expired l"

fun run :: "(string \<Rightarrow> string) \<Rightarrow> stimulus list \<Rightarrow> RunTestListener \<Rightarrow> effect list \<times> RunTestListener" where
  "run clean [] l = ([], l)"
| "run clean (x # xs) l =
     (case step clean x l of
        (out, l') \<Rightarrow> (case run clean xs l' of (out', l'') \<Rightarrow> (out @ out', l'')))"

section \<open>Observations on what a handler does\<close>

text \<open>Predicates that select effects of one kind from the list a handler returns.\<close>

fun is_data :: "effect \<Rightarrow> bool" where
  "is_data (Fire (Ev_data _ _ _ _ _)) = True"
| "is_data _ = False"

fun is_start :: "effect \<Rightarrow> bool" where
  "is_start (Fire (Ev_start _)) = True"
| "is_start _ = False"




fun is_exit :: "effect \<Rightarrow> bool" where
  "is_exit (Fire (Ev_exit _ _ _)) = True"
| "is_exit _ = False"

fun is_ScheduleProcess :: "effect \<Rightarrow> bool" where
  "is_ScheduleProcess (ScheduleProcess _) = True"
| "is_ScheduleProcess _ = False"

fun is_Stop :: "effect \<Rightarrow> bool" where
  "is_Stop (Stop _) = True"
| "is_Stop _ = False"

fun is_processClose :: "stimulus \<Rightarrow> bool" where
  "is_processClose (Raw _ (processClose _ _)) = True"
| "is_processClose _ = False"


fun is_OnResult :: "effect \<Rightarrow> bool" where
  "is_OnResult (OnResult _ _ _) = True"
| "is_OnResult _ = False"

fun is_processExit :: "JestProcessEvent \<Rightarrow> bool" where
  "is_processExit (processExit _ _) = True"
| "is_processExit _ = False"

text \<open>The text that a raw event adds to the stdout buffer and to the stderr text.\<close>

fun stdout_of :: "Externals \<Rightarrow> JestProcessEvent \<Rightarrow> string" where
  "stdout_of X (executableOutput str) = cleanAnsi X str"
| "stdout_of X _ = []"

fun stderr_of :: "JestProcessEvent \<Rightarrow> string" where
  "stderr_of (executableStdErr d) = d"
| "stderr_of _ = []"

text \<open>Sample values: a watch process, a listener as constructed with default settings, and the
  same listener during a run of five suites.\<close>

abbreviation watch_process :: JestProcess where
  "watch_process \<equiv> \<lparr>request = Request ''watch-tests'' False None, stopReason = None\<rparr>"

abbreviation idle_listener :: RunTestListener where
  "idle_listener \<equiv>
     \<lparr>session = \<lparr>enableSnapshotUpdateMessages = True, monitorLongRun = None, workspace_name = ''ws''\<rparr>,
      longRunMonitor = \<lparr>thresholdMs = 60000, timer = None\<rparr>, runInfo = None, exitCode = None\<rparr>"

abbreviation running_listener :: RunTestListener where
  "running_listener \<equiv>
     \<lparr>session = \<lparr>enableSnapshotUpdateMessages = True, monitorLongRun = None, workspace_name = ''ws''\<rparr>,
      longRunMonitor = \<lparr>thresholdMs = 60000, timer = Some 60000\<rparr>,
      runInfo = Some \<lparr>process = watch_process, numTotalTestSuites = Some 5\<rparr>, exitCode = None\<rparr>"

text \<open>Further sample processes, and sample functions for the parameters of the model: an
  identity \<open>cleanAnsi\<close>, a \<open>JSON.parse\<close> that knows one array, and an \<open>fsPath\<close> that returns a
  string as it is.\<close>

abbreviation all_tests_process :: JestProcess where
  "all_tests_process \<equiv> \<lparr>request = Request ''all-tests'' False None, stopReason = None\<rparr>"

abbreviation stopped_process :: JestProcess where
  "stopped_process \<equiv> \<lparr>request = Request ''watch-tests'' False None, stopReason = Some ''on-demand''\<rparr>"

abbreviation list_process :: JestProcess where
  "list_process \<equiv> \<lparr>request = Request ''list-test-files'' False None, stopReason = None\<rparr>"

abbreviation sample_externals :: Externals where
  "sample_externals \<equiv>
     \<lparr>cleanAnsi = (\<lambda>s. s),
      toErrorString = (\<lambda>e. case e of SyntaxError m \<Rightarrow> ''SyntaxError: '' @ m
                                    | TypeError m \<Rightarrow> ''TypeError: '' @ m),
      JSON_parse = (\<lambda>s. if s = ''[\"/a.test.js\",\"\",\"/b.test.js\"]''
                         then Inr (JArray [JString ''/a.test.js'', JString '''', JString ''/b.test.js''])
                         else Inl (SyntaxError ''Unexpected token'')),
      Uri_file_fsPath = (\<lambda>f. case f of JString s \<Rightarrow> Inr s
                                       | _ \<Rightarrow> Inl (TypeError ''not a path''))\<rparr>"

section \<open>Facts about the text functions\<close>



text \<open>Removing the control messages: what is left of the text has no match of the pattern.\<close>

lemma LineTerminator_of_char:
  "LineTerminator c \<longleftrightarrow> (of_char c :: nat) = 10 \<or> (of_char c :: nat) = 13"
proof -
  have "c = CHR 0x0A \<longleftrightarrow> (of_char c :: nat) = of_char (CHR 0x0A)"
    and "c = CHR 0x0D \<longleftrightarrow> (of_char c :: nat) = of_char (CHR 0x0D)"
    by (simp_all only: of_char_eq_iff)
  then show ?thesis by (simp add: LineTerminator_def)
qed

lemma canonicalize_LineTerminator:
  "canonicalize p = canonicalize c \<Longrightarrow> \<not> LineTerminator p \<Longrightarrow> \<not> LineTerminator c"
  by (auto simp: LineTerminator_of_char canonicalize_def Let_def split: if_splits)

lemma rest_of_line_iff:
  "rest_of_line r \<noteq> None \<longleftrightarrow> (r \<noteq> [] \<and> hd r \<noteq> LF \<and> LF \<in> set r)"
  by (auto simp: rest_of_line_def Let_def takeWhile_eq_Nil_iff dropWhile_eq_Nil_conv)

lemma first_alternative_iff:
  "first_alternative ks s \<noteq> None \<longleftrightarrow>
     (\<exists>k \<in> set ks. \<exists>r. ci_strip k s = Some r \<and> rest_of_line r \<noteq> None)"
  by (induction ks) (auto split: option.splits)

lemma ci_strip_set: "ci_strip p s = Some r \<Longrightarrow> set r \<subseteq> set s"
  by (induction p s rule: ci_strip.induct) (auto split: if_splits)

lemma rest_of_line_set: "rest_of_line s = Some t \<Longrightarrow> set t \<subseteq> set s"
proof -
  assume "rest_of_line s = Some t"
  then have t: "t = tl (dropWhile (\<lambda>c. c \<noteq> LF) s)" and "dropWhile (\<lambda>c. c \<noteq> LF) s \<noteq> []"
    by (auto simp: rest_of_line_def Let_def split: if_splits)
  then have "set t \<subseteq> set (dropWhile (\<lambda>c. c \<noteq> LF) s)"
    by (metis list.set_sel(2) subsetI)
  also have "\<dots> \<subseteq> set s" by (rule set_dropWhileD[THEN subsetI]) 
  finally show ?thesis .
qed

lemma first_alternative_set: "first_alternative ks s = Some t \<Longrightarrow> set t \<subseteq> set s"
proof (induction ks)
  case Nil
  then show ?case by simp
next
  case (Cons k ks)
  then show ?case
    by (auto split: option.splits dest!: ci_strip_set rest_of_line_set)
qed

lemma CONTROL_MESSAGES_at_suffix:
  "CONTROL_MESSAGES_at prev s = Some t \<Longrightarrow> set t \<subseteq> set s"
  by (auto simp: CONTROL_MESSAGES_at_def split: if_splits dest: first_alternative_set)

lemma set_replace_CONTROL_MESSAGES: "set (replace_CONTROL_MESSAGES prev s) \<subseteq> set s"
proof (induction prev s rule: replace_CONTROL_MESSAGES.induct)
  case (1 prev)
  then show ?case by simp
next
  case (2 prev c cs)
  show ?case
  proof (cases "CONTROL_MESSAGES_at prev (c # cs)")
    case None
    with 2 show ?thesis by auto
  next
    case (Some rest)
    with 2 CONTROL_MESSAGES_at_suffix[OF Some] show ?thesis by auto
  qed
qed

lemma ci_strip_replace:
  assumes "\<forall>ch \<in> set k. \<not> LineTerminator ch"
    and "CONTROL_MESSAGES_at prev s = None"
    and "ci_strip k (replace_CONTROL_MESSAGES prev s) = Some r'"
    and "rest_of_line r' \<noteq> None"
  shows "\<exists>r. ci_strip k s = Some r \<and> rest_of_line r \<noteq> None"
  using assms
proof (induction k arbitrary: prev s)
  case Nil
  then have r': "r' = replace_CONTROL_MESSAGES prev s" by simp
  with Nil.prems(4) have ne: "replace_CONTROL_MESSAGES prev s \<noteq> []"
    and hd: "hd (replace_CONTROL_MESSAGES prev s) \<noteq> LF"
    and lf: "LF \<in> set (replace_CONTROL_MESSAGES prev s)"
    unfolding rest_of_line_iff by blast+
  from ne obtain c cs where s: "s = c # cs" by (cases s) auto
  with Nil.prems(2) have "replace_CONTROL_MESSAGES prev s = c # replace_CONTROL_MESSAGES (Some c) cs"
    by simp
  with hd have "hd s \<noteq> LF" using s by simp
  moreover from lf set_replace_CONTROL_MESSAGES have "LF \<in> set s" by blast
  ultimately have "rest_of_line s \<noteq> None" using s unfolding rest_of_line_iff by simp
  then show ?case by simp
next
  case (Cons p ps)
  from Cons.prems(3) obtain c cs where s: "s = c # cs" by (cases s) auto
  with Cons.prems(2)
  have rep: "replace_CONTROL_MESSAGES prev s = c # replace_CONTROL_MESSAGES (Some c) cs"
    by simp
  with Cons.prems(3) have eq: "canonicalize p = canonicalize c"
    and strip: "ci_strip ps (replace_CONTROL_MESSAGES (Some c) cs) = Some r'"
    by (auto split: if_splits)
  from Cons.prems(1) have "\<not> LineTerminator p" by simp
  with eq have "\<not> LineTerminator c" by (rule canonicalize_LineTerminator)
  then have "CONTROL_MESSAGES_at (Some c) cs = None"
    by (simp add: CONTROL_MESSAGES_at_def at_line_start_def)
  moreover from Cons.prems(1) have "\<forall>ch \<in> set ps. \<not> LineTerminator ch" by simp
  ultimately obtain r where "ci_strip ps cs = Some r" "rest_of_line r \<noteq> None"
    using Cons.IH strip Cons.prems(4) by blast
  with eq s show ?case by simp
qed

lemma keywords_no_LineTerminator:
  "\<forall>k \<in> set CONTROL_MESSAGES_keywords. \<forall>ch \<in> set k. \<not> LineTerminator ch"
  by (simp add: CONTROL_MESSAGES_keywords_def LineTerminator_def)

lemma CONTROL_MESSAGES_at_replace:
  assumes "CONTROL_MESSAGES_at prev s = None"
  shows "CONTROL_MESSAGES_at prev (replace_CONTROL_MESSAGES prev s) = None"
proof (cases "at_line_start prev")
  case False
  then show ?thesis by (simp add: CONTROL_MESSAGES_at_def)
next
  case True
  with assms have none: "first_alternative CONTROL_MESSAGES_keywords s = None"
    by (simp add: CONTROL_MESSAGES_at_def)
  have "first_alternative CONTROL_MESSAGES_keywords (replace_CONTROL_MESSAGES prev s) = None"
  proof (rule ccontr)
    assume "first_alternative CONTROL_MESSAGES_keywords (replace_CONTROL_MESSAGES prev s) \<noteq> None"
    then obtain k r' where k: "k \<in> set CONTROL_MESSAGES_keywords"
      and "ci_strip k (replace_CONTROL_MESSAGES prev s) = Some r'" "rest_of_line r' \<noteq> None"
      unfolding first_alternative_iff by blast
    moreover from k keywords_no_LineTerminator have "\<forall>ch \<in> set k. \<not> LineTerminator ch" by blast
    ultimately obtain r where "ci_strip k s = Some r" "rest_of_line r \<noteq> None"
      using ci_strip_replace assms by blast
    with k have "first_alternative CONTROL_MESSAGES_keywords s \<noteq> None"
      unfolding first_alternative_iff by blast
    with none show False by simp
  qed
  with True show ?thesis by (simp add: CONTROL_MESSAGES_at_def)
qed

lemma CONTROL_MESSAGES_at_prev:
  "at_line_start prev \<Longrightarrow> at_line_start prev' \<Longrightarrow>
   CONTROL_MESSAGES_at prev s = CONTROL_MESSAGES_at prev' s"
  by (simp add: CONTROL_MESSAGES_at_def)

lemma exec_prev:
  "at_line_start prev \<Longrightarrow> at_line_start prev' \<Longrightarrow>
   exec CONTROL_MESSAGES_at prev s = exec CONTROL_MESSAGES_at prev' s"
  by (cases s) (simp_all add: CONTROL_MESSAGES_at_def)

lemma exec_replace_CONTROL_MESSAGES:
  "exec CONTROL_MESSAGES_at prev (replace_CONTROL_MESSAGES prev s) = None"
proof (induction prev s rule: replace_CONTROL_MESSAGES.induct)
  case (1 prev)
  then show ?case by (simp add: CONTROL_MESSAGES_at_def CONTROL_MESSAGES_keywords_def)
next
  case (2 prev c cs)
  show ?case
  proof (cases "CONTROL_MESSAGES_at prev (c # cs)")
    case None
    from CONTROL_MESSAGES_at_replace[OF None] None
    have "CONTROL_MESSAGES_at prev (c # replace_CONTROL_MESSAGES (Some c) cs) = None" by simp
    with None 2 show ?thesis by simp
  next
    case (Some rest)
    then have bol: "at_line_start prev" by (auto simp: CONTROL_MESSAGES_at_def split: if_splits)
    have "at_line_start (Some LF)" by (simp add: at_line_start_def LineTerminator_def LF_def)
    with bol have "exec CONTROL_MESSAGES_at prev (replace_CONTROL_MESSAGES (Some LF) rest)
          = exec CONTROL_MESSAGES_at (Some LF) (replace_CONTROL_MESSAGES (Some LF) rest)"
      by (rule exec_prev)
    with Some 2 show ?thesis by simp
  qed
qed

lemma exec_None_replace:
  "exec CONTROL_MESSAGES_at prev s = None \<Longrightarrow> replace_CONTROL_MESSAGES prev s = s"
  by (induction prev s rule: replace_CONTROL_MESSAGES.induct) (auto split: option.splits)

subsection \<open>What the matchers accept\<close>

text \<open>Each matcher is related to the reading of its pattern: the literal pieces of the pattern
  occur in the text, in any letter case, in the order and at the positions the pattern asks
  for.\<close>

lemma ci_strip_iff:
  "ci_strip p s = Some r \<longleftrightarrow> (\<exists>m. s = m @ r \<and> same_ignoring_case m p)"
proof (induction p s rule: ci_strip.induct)
  case (1 s)
  then show ?case by (auto simp: same_ignoring_case_def)
next
  case (2 p ps)
  then show ?case by (auto simp: same_ignoring_case_def)
next
  case (3 p ps c cs)
  show ?case
  proof (cases "canonicalize p = canonicalize c")
    case False
    have "\<not> (\<exists>m. c # cs = m @ r \<and> same_ignoring_case m (p # ps))"
    proof
      assume "\<exists>m. c # cs = m @ r \<and> same_ignoring_case m (p # ps)"
      then obtain m where m: "c # cs = m @ r" "same_ignoring_case m (p # ps)" by blast
      then obtain m' where "m = c # m'" by (cases m) (auto simp: same_ignoring_case_def)
      with m False show False by (simp add: same_ignoring_case_def)
    qed
    with False show ?thesis by simp
  next
    case True
    have "(\<exists>m. cs = m @ r \<and> same_ignoring_case m ps)
          \<longleftrightarrow> (\<exists>m. c # cs = m @ r \<and> same_ignoring_case m (p # ps))"
    proof
      assume "\<exists>m. cs = m @ r \<and> same_ignoring_case m ps"
      then obtain m where "cs = m @ r" "same_ignoring_case m ps" by blast
      with True have "c # cs = (c # m) @ r \<and> same_ignoring_case (c # m) (p # ps)"
        by (simp add: same_ignoring_case_def)
      then show "\<exists>m. c # cs = m @ r \<and> same_ignoring_case m (p # ps)" by blast
    next
      assume "\<exists>m. c # cs = m @ r \<and> same_ignoring_case m (p # ps)"
      then obtain m where m: "c # cs = m @ r" "same_ignoring_case m (p # ps)" by blast
      then obtain m' where "m = c # m'" by (cases m) (auto simp: same_ignoring_case_def)
      with m have "cs = m' @ r \<and> same_ignoring_case m' ps" by (simp add: same_ignoring_case_def)
      then show "\<exists>m. cs = m @ r \<and> same_ignoring_case m ps" by blast
    qed
    with True 3 show ?thesis by simp
  qed
qed

lemma anywhere_iff: "anywhere k s \<longleftrightarrow> (\<exists>pre post. s = pre @ post \<and> k post)"
proof (induction s)
  case Nil
  then show ?case by simp
next
  case (Cons c cs)
  have "(\<exists>pre post. c # cs = pre @ post \<and> k post)
        \<longleftrightarrow> k (c # cs) \<or> (\<exists>pre post. cs = pre @ post \<and> k post)"
  proof
    assume "\<exists>pre post. c # cs = pre @ post \<and> k post"
    then obtain pre post where e: "c # cs = pre @ post" "k post" by blast
    show "k (c # cs) \<or> (\<exists>pre post. cs = pre @ post \<and> k post)"
    proof (cases pre)
      case Nil
      with e show ?thesis by simp
    next
      case (Cons a pre')
      with e have "cs = pre' @ post" by simp
      with e show ?thesis by blast
    qed
  next
    assume "k (c # cs) \<or> (\<exists>pre post. cs = pre @ post \<and> k post)"
    then show "\<exists>pre post. c # cs = pre @ post \<and> k post"
    proof
      assume "k (c # cs)"
      then have "c # cs = [] @ (c # cs) \<and> k (c # cs)" by simp
      then show ?thesis by blast
    next
      assume "\<exists>pre post. cs = pre @ post \<and> k post"
      then obtain pre post where "cs = pre @ post" "k post" by blast
      then have "c # cs = (c # pre) @ post \<and> k post" by simp
      then show ?thesis by blast
    qed
  qed
  with Cons show ?case by simp
qed

lemma ci_strip_not_None:
  "ci_strip p s \<noteq> None \<longleftrightarrow> (\<exists>m r. s = m @ r \<and> same_ignoring_case m p)"
proof -
  have "ci_strip p s \<noteq> None \<longleftrightarrow> (\<exists>r. ci_strip p s = Some r)" by auto
  then show ?thesis unfolding ci_strip_iff by blast
qed

lemma case_ci_strip:
  "(case ci_strip p s of None \<Rightarrow> False | Some r \<Rightarrow> K r)
     \<longleftrightarrow> (\<exists>A r. s = A @ r \<and> same_ignoring_case A p \<and> K r)"
proof (cases "ci_strip p s")
  case None
  have "\<not> (\<exists>A r. s = A @ r \<and> same_ignoring_case A p \<and> K r)"
  proof
    assume "\<exists>A r. s = A @ r \<and> same_ignoring_case A p \<and> K r"
    then obtain A r where "s = A @ r" "same_ignoring_case A p" by blast
    then have "ci_strip p s = Some r" unfolding ci_strip_iff by blast
    with None show False by simp
  qed
  with None show ?thesis by simp
next
  case (Some r0)
  then obtain A0 where A0: "s = A0 @ r0" "same_ignoring_case A0 p"
    unfolding ci_strip_iff by blast
  have "K r0 \<longleftrightarrow> (\<exists>A r. s = A @ r \<and> same_ignoring_case A p \<and> K r)"
  proof
    assume "K r0"
    with A0 show "\<exists>A r. s = A @ r \<and> same_ignoring_case A p \<and> K r" by blast
  next
    assume "\<exists>A r. s = A @ r \<and> same_ignoring_case A p \<and> K r"
    then obtain A r where x: "s = A @ r" "same_ignoring_case A p" "K r" by blast
    then have "ci_strip p s = Some r" unfolding ci_strip_iff by blast
    with Some x show "K r0" by simp
  qed
  with Some show ?thesis by simp
qed

lemma anywhere_strip:
  "anywhere (\<lambda>s. case ci_strip p s of None \<Rightarrow> False | Some r \<Rightarrow> K r) s
     \<longleftrightarrow> (\<exists>a A r. s = a @ A @ r \<and> same_ignoring_case A p \<and> K r)"
  unfolding anywhere_iff case_ci_strip by blast

lemma anywhere_last:
  "anywhere (\<lambda>s. ci_strip p s \<noteq> None) s
     \<longleftrightarrow> (\<exists>a A r. s = a @ A @ r \<and> same_ignoring_case A p)"
  unfolding anywhere_iff ci_strip_not_None by blast

lemma IS_OUTSIDE_REPOSITORY_REGEXP_test_iff:
  "IS_OUTSIDE_REPOSITORY_REGEXP_test s \<longleftrightarrow>
     (\<exists>a A b B c C d. s = a @ A @ b @ B @ c @ C @ d
        \<and> same_ignoring_case A ''Test suite failed to run''
        \<and> same_ignoring_case B ''fatal:''
        \<and> same_ignoring_case C ''is outside repository'')"
  unfolding IS_OUTSIDE_REPOSITORY_REGEXP_test_def anywhere_strip anywhere_last by blast

lemma ci_strip_append:
  "ci_strip (p @ q) s = (case ci_strip p s of None \<Rightarrow> None | Some r \<Rightarrow> ci_strip q r)"
  by (induction p s rule: ci_strip.induct) simp_all

lemma SnapshotFailRegex_at_iff:
  "SnapshotFailRegex_at s \<longleftrightarrow>
     (\<exists>A r. s = A @ r
        \<and> (same_ignoring_case A ''snapshot failed'' \<or> same_ignoring_case A ''snapshots failed''
             \<or> same_ignoring_case A ''snapshot test failed''))"
proof -
  have a: "ci_strip ''snapshot failed'' s = ci_strip (''snapshot'' @ '' failed'') s"
    and b: "ci_strip ''snapshots failed'' s = ci_strip (''snapshot'' @ ''s'' @ '' failed'') s"
    by simp_all
  have "SnapshotFailRegex_at s \<longleftrightarrow>
      (ci_strip ''snapshot failed'' s \<noteq> None \<or> ci_strip ''snapshots failed'' s \<noteq> None
       \<or> ci_strip ''snapshot test failed'' s \<noteq> None)"
    unfolding a b ci_strip_append SnapshotFailRegex_at_def
    by (auto split: option.splits)
  then show ?thesis unfolding ci_strip_not_None by blast
qed

lemma SnapshotFailRegex_test_iff:
  "SnapshotFailRegex_test s \<longleftrightarrow>
     (\<exists>a A r. s = a @ A @ r
        \<and> (same_ignoring_case A ''snapshot failed'' \<or> same_ignoring_case A ''snapshots failed''
             \<or> same_ignoring_case A ''snapshot test failed''))"
  unfolding SnapshotFailRegex_test_def anywhere_iff SnapshotFailRegex_at_iff by blast

lemma char_before_Cons: "char_before prev (c # pre) = char_before (Some c) pre"
  by (simp add: char_before_def)

lemma exec_None_iff:
  "exec m prev s = None \<longleftrightarrow> (\<forall>pre post. s = pre @ post \<longrightarrow> m (char_before prev pre) post = None)"
proof (induction m prev s rule: exec.induct)
  case (1 m prev)
  then show ?case by (simp add: char_before_def)
next
  case (2 m prev c cs)
  have "(\<forall>pre post. c # cs = pre @ post \<longrightarrow> m (char_before prev pre) post = None)
        \<longleftrightarrow> m prev (c # cs) = None
            \<and> (\<forall>pre post. cs = pre @ post \<longrightarrow> m (char_before (Some c) pre) post = None)"
  proof (intro iffI conjI allI impI)
    assume h: "\<forall>pre post. c # cs = pre @ post \<longrightarrow> m (char_before prev pre) post = None"
    from h have "m (char_before prev []) (c # cs) = None" by simp
    then show "m prev (c # cs) = None" by (simp add: char_before_def)
    fix pre post assume "cs = pre @ post"
    then have "c # cs = (c # pre) @ post" by simp
    with h have "m (char_before prev (c # pre)) post = None" by blast
    then show "m (char_before (Some c) pre) post = None" by (simp only: char_before_Cons)
  next
    fix pre post
    assume h: "m prev (c # cs) = None
            \<and> (\<forall>pre post. cs = pre @ post \<longrightarrow> m (char_before (Some c) pre) post = None)"
      and e: "c # cs = pre @ post"
    show "m (char_before prev pre) post = None"
    proof (cases pre)
      case Nil
      with h e show ?thesis by (simp add: char_before_def)
    next
      case (Cons a pre')
      with e have "cs = pre' @ post" "a = c" by simp_all
      with h have "m (char_before (Some c) pre') post = None" by blast
      with Cons \<open>a = c\<close> show ?thesis by (simp only: char_before_Cons)
    qed
  qed
  with 2 show ?case by (simp split: option.splits)
qed

lemma exec_Some:
  "exec m prev s = Some x \<Longrightarrow>
   \<exists>pre post. s = pre @ post \<and> m (char_before prev pre) post = Some x
     \<and> (\<forall>pre' post'. s = pre' @ post' \<and> length pre' < length pre
            \<longrightarrow> m (char_before prev pre') post' = None)"
proof (induction m prev s rule: exec.induct)
  case (1 m prev)
  then have "m prev [] = Some x" by simp
  then have "m (char_before prev []) [] = Some x" by (simp add: char_before_def)
  then have "[] = [] @ [] \<and> m (char_before prev []) [] = Some x
     \<and> (\<forall>pre' post'. [] = pre' @ post' \<and> length pre' < length ([]::string)
            \<longrightarrow> m (char_before prev pre') post' = None)"
    by (intro conjI allI impI) (simp_all only: append_Nil list.size not_less_zero conj_absorb simp_thms)
  then show ?case by (intro exI[of _ "[]"]) 
next
  case (2 m prev c cs)
  show ?case
  proof (cases "m prev (c # cs)")
    case (Some r)
    with "2.prems" have "m prev (c # cs) = Some x" by simp
    then have "m (char_before prev []) (c # cs) = Some x" by (simp add: char_before_def)
    then have "c # cs = [] @ (c # cs) \<and> m (char_before prev []) (c # cs) = Some x
     \<and> (\<forall>pre' post'. c # cs = pre' @ post' \<and> length pre' < length ([]::string)
            \<longrightarrow> m (char_before prev pre') post' = None)"
      by (intro conjI allI impI) (simp_all only: append_Nil list.size not_less_zero conj_absorb simp_thms)
    then show ?thesis by (intro exI[of _ "[]"] exI[of _ "c # cs"])
  next
    case None
    with "2.prems" have "exec m (Some c) cs = Some x" by simp
    from "2.IH"[OF None this]
    obtain pre post where p: "cs = pre @ post" "m (char_before (Some c) pre) post = Some x"
      "\<forall>pre' post'. cs = pre' @ post' \<and> length pre' < length pre
            \<longrightarrow> m (char_before (Some c) pre') post' = None"
      by (elim exE conjE)
    have "\<forall>pre' post'. c # cs = pre' @ post' \<and> length pre' < length (c # pre)
            \<longrightarrow> m (char_before prev pre') post' = None"
    proof (intro allI impI)
      fix pre' post'
      assume a: "c # cs = pre' @ post' \<and> length pre' < length (c # pre)"
      show "m (char_before prev pre') post' = None"
      proof (cases pre')
        case Nil
        with a None show ?thesis by (simp add: char_before_def)
      next
        case (Cons a' pre'')
        with a have "cs = pre'' @ post' \<and> length pre'' < length pre" and "a' = c" by simp_all
        with p(3) have "m (char_before (Some c) pre'') post' = None" by (elim allE impE) 
        with Cons \<open>a' = c\<close> show ?thesis by (simp only: char_before_Cons)
      qed
    qed
    moreover from p(1,2)
    have "c # cs = (c # pre) @ post" "m (char_before prev (c # pre)) post = Some x"
      by (simp_all only: char_before_Cons append_Cons)
    ultimately have "c # cs = (c # pre) @ post \<and> m (char_before prev (c # pre)) post = Some x
     \<and> (\<forall>pre' post'. c # cs = pre' @ post' \<and> length pre' < length (c # pre)
            \<longrightarrow> m (char_before prev pre') post' = None)" by (intro conjI)
    then show ?thesis by (intro exI[of _ "c # pre"] exI[of _ post])
  qed
qed

lemma canonicalize_s:
  "canonicalize c = canonicalize CHR ''s'' \<longleftrightarrow> c = CHR ''s'' \<or> c = CHR ''S''"
proof -
  have "c = CHR ''s'' \<longleftrightarrow> (of_char c :: nat) = of_char (CHR ''s'')"
    and "c = CHR ''S'' \<longleftrightarrow> (of_char c :: nat) = of_char (CHR ''S'')"
    by (simp_all only: of_char_eq_iff)
  then show ?thesis by (auto simp: canonicalize_def Let_def)
qed

lemma same_ignoring_case_Cons:
  "same_ignoring_case M (p # ps) \<Longrightarrow> \<exists>m ms. M = m # ms \<and> canonicalize m = canonicalize p"
  by (cases M) (auto simp: same_ignoring_case_def)

text \<open>A greedy run of characters, then a literal that starts with a character outside the
  run.\<close>

lemma ci_strip_dropWhile:
  assumes "\<And>m. canonicalize m = canonicalize p \<Longrightarrow> \<not> P m"
  shows "ci_strip (p # ps) (dropWhile P s) \<noteq> None \<longleftrightarrow>
     (\<exists>ss M post. s = ss @ M @ post \<and> (\<forall>c \<in> set ss. P c) \<and> same_ignoring_case M (p # ps))"
    (is "?L \<longleftrightarrow> ?R")
proof
  assume ?L
  then obtain M r where d: "dropWhile P s = M @ r" and M: "same_ignoring_case M (p # ps)"
    unfolding ci_strip_not_None by (elim exE conjE)
  have "takeWhile P s @ dropWhile P s = s" by (rule takeWhile_dropWhile_id)
  then have "s = takeWhile P s @ M @ r" unfolding d by (rule sym)
  moreover have "\<forall>c \<in> set (takeWhile P s). P c" by (auto dest: set_takeWhileD)
  ultimately have "s = takeWhile P s @ M @ r \<and> (\<forall>c \<in> set (takeWhile P s). P c)
      \<and> same_ignoring_case M (p # ps)" using M by (intro conjI)
  then show ?R by (intro exI[of _ "takeWhile P s"] exI[of _ M] exI[of _ r])
next
  assume ?R
  then obtain ss M post where s: "s = ss @ M @ post" and ss: "\<forall>c \<in> set ss. P c"
    and M: "same_ignoring_case M (p # ps)" by (elim exE conjE)
  from same_ignoring_case_Cons[OF M]
  obtain m ms where Mc: "M = m # ms" and "canonicalize m = canonicalize p" by (elim exE conjE)
  then have "\<not> P m" using assms by simp
  with ss have "dropWhile P (ss @ (m # ms) @ post) = (m # ms) @ post"
    by (simp add: dropWhile_append)
  then have "dropWhile P s = M @ post" unfolding s Mc .
  with M show ?L unfolding ci_strip_not_None by (intro exI[of _ M] exI[of _ post] conjI)
qed

lemma WATCH_IS_NOT_SUPPORTED_REGEXP_at_iff:
  "WATCH_IS_NOT_SUPPORTED_REGEXP_at prev s \<noteq> None \<longleftrightarrow>
     at_line_start prev
     \<and> (\<exists>ss M post. s = ss @ M @ post \<and> (\<forall>c \<in> set ss. c = CHR ''s'' \<or> c = CHR ''S'')
          \<and> same_ignoring_case M ''--watch is not supported without git/hg, please use --watchAll'')"
proof -
  have "\<And>m. canonicalize m = canonicalize CHR ''-'' \<Longrightarrow> canonicalize m \<noteq> canonicalize CHR ''s''"
    by (simp add: canonicalize_def)
  then have "ci_strip ''--watch is not supported without git/hg, please use --watchAll''
          (dropWhile (\<lambda>c. canonicalize c = canonicalize CHR ''s'') s) \<noteq> None
      \<longleftrightarrow> (\<exists>ss M post. s = ss @ M @ post
            \<and> (\<forall>c \<in> set ss. canonicalize c = canonicalize CHR ''s'')
            \<and> same_ignoring_case M ''--watch is not supported without git/hg, please use --watchAll'')"
    by (rule ci_strip_dropWhile)
  then have core: "ci_strip ''--watch is not supported without git/hg, please use --watchAll''
          (dropWhile (\<lambda>c. canonicalize c = canonicalize CHR ''s'') s) \<noteq> None
      \<longleftrightarrow> (\<exists>ss M post. s = ss @ M @ post
            \<and> (\<forall>c \<in> set ss. c = CHR ''s'' \<or> c = CHR ''S'')
            \<and> same_ignoring_case M ''--watch is not supported without git/hg, please use --watchAll'')"
    unfolding canonicalize_s .
  show ?thesis
  proof (cases "at_line_start prev")
    case False
    then show ?thesis by (simp add: WATCH_IS_NOT_SUPPORTED_REGEXP_at_def)
  next
    case True
    then have "WATCH_IS_NOT_SUPPORTED_REGEXP_at prev s \<noteq> None \<longleftrightarrow>
        ci_strip ''--watch is not supported without git/hg, please use --watchAll''
          (dropWhile (\<lambda>c. canonicalize c = canonicalize CHR ''s'') s) \<noteq> None"
      unfolding WATCH_IS_NOT_SUPPORTED_REGEXP_at_def
      by (cases "ci_strip ''--watch is not supported without git/hg, please use --watchAll''
          (dropWhile (\<lambda>c. canonicalize c = canonicalize CHR ''s'') s)") simp_all
    with True show ?thesis unfolding core by (simp only: simp_thms)
  qed
qed

lemma exec_not_None_iff:
  "exec m prev s \<noteq> None \<longleftrightarrow> (\<exists>pre post. s = pre @ post \<and> m (char_before prev pre) post \<noteq> None)"
  unfolding exec_None_iff by (simp only: not_all not_imp)

lemma WATCH_IS_NOT_SUPPORTED_REGEXP_test_iff:
  "WATCH_IS_NOT_SUPPORTED_REGEXP_test s \<longleftrightarrow>
     (\<exists>pre ss M post. s = pre @ ss @ M @ post
        \<and> (pre = [] \<or> LineTerminator (last pre))
        \<and> (\<forall>c \<in> set ss. c = CHR ''s'' \<or> c = CHR ''S'')
        \<and> same_ignoring_case M ''--watch is not supported without git/hg, please use --watchAll'')"
  (is "?L \<longleftrightarrow> ?R")
proof -
  have bol: "\<And>pre. at_line_start (char_before None pre) \<longleftrightarrow> pre = [] \<or> LineTerminator (last pre)"
    by (simp add: at_line_start_def char_before_def)
  show ?thesis
  proof
    assume ?L
    then obtain pre post0 where s: "s = pre @ post0"
      and "WATCH_IS_NOT_SUPPORTED_REGEXP_at (char_before None pre) post0 \<noteq> None"
      unfolding WATCH_IS_NOT_SUPPORTED_REGEXP_test_def exec_not_None_iff by (elim exE conjE)
    then obtain ss M post where "pre = [] \<or> LineTerminator (last pre)"
      and "post0 = ss @ M @ post" and "\<forall>c \<in> set ss. c = CHR ''s'' \<or> c = CHR ''S''"
      and "same_ignoring_case M ''--watch is not supported without git/hg, please use --watchAll''"
      unfolding WATCH_IS_NOT_SUPPORTED_REGEXP_at_iff bol by (elim exE conjE)
    with s have "s = pre @ ss @ M @ post
        \<and> (pre = [] \<or> LineTerminator (last pre))
        \<and> (\<forall>c \<in> set ss. c = CHR ''s'' \<or> c = CHR ''S'')
        \<and> same_ignoring_case M ''--watch is not supported without git/hg, please use --watchAll''"
      by (simp only: simp_thms)
    then show ?R by (intro exI[of _ pre] exI[of _ ss] exI[of _ M] exI[of _ post])
  next
    assume ?R
    then obtain pre ss M post where s: "s = pre @ ss @ M @ post"
      and b: "pre = [] \<or> LineTerminator (last pre)"
      and x: "\<forall>c \<in> set ss. c = CHR ''s'' \<or> c = CHR ''S''"
        "same_ignoring_case M ''--watch is not supported without git/hg, please use --watchAll''"
      by (elim exE conjE)
    from x have "\<exists>ss' M' post'. ss @ M @ post = ss' @ M' @ post'
        \<and> (\<forall>c \<in> set ss'. c = CHR ''s'' \<or> c = CHR ''S'')
        \<and> same_ignoring_case M' ''--watch is not supported without git/hg, please use --watchAll''"
      by (intro exI[of _ ss] exI[of _ M] exI[of _ post] conjI refl)
    with b have "WATCH_IS_NOT_SUPPORTED_REGEXP_at (char_before None pre) (ss @ M @ post) \<noteq> None"
      unfolding WATCH_IS_NOT_SUPPORTED_REGEXP_at_iff bol by (intro conjI)
    with s have "\<exists>pre' post'. s = pre' @ post'
        \<and> WATCH_IS_NOT_SUPPORTED_REGEXP_at (char_before None pre') post' \<noteq> None"
      by (intro exI[of _ pre] exI[of _ "ss @ M @ post"] conjI)
    then show ?L unfolding WATCH_IS_NOT_SUPPORTED_REGEXP_test_def exec_not_None_iff .
  qed
qed

lemma RUN_START_TEST_SUITES_REGEX_match_Some:
  assumes "RUN_START_TEST_SUITES_REGEX_match s = Some ds"
  shows "\<exists>pre L post. s = pre @ L @ ds @ post
           \<and> same_ignoring_case L ''onRunStart: numTotalTestSuites: ''
           \<and> ds \<noteq> [] \<and> (\<forall>c \<in> set ds. is_digit c) \<and> (post = [] \<or> \<not> is_digit (hd post))"
proof -
  from exec_Some[OF assms[unfolded RUN_START_TEST_SUITES_REGEX_match_def]]
  obtain pre post0 where s: "s = pre @ post0"
    and at: "RUN_START_TEST_SUITES_REGEX_at (char_before None pre) post0 = Some ds"
    by (elim exE conjE)
  from at obtain r where r: "ci_strip ''onRunStart: numTotalTestSuites: '' post0 = Some r"
    and ds: "ds = takeWhile is_digit r" "ds \<noteq> []"
    by (cases "ci_strip ''onRunStart: numTotalTestSuites: '' post0")
       (simp_all add: RUN_START_TEST_SUITES_REGEX_at_def Let_def split: if_splits)
  from r obtain L where L: "post0 = L @ r" "same_ignoring_case L ''onRunStart: numTotalTestSuites: ''"
    unfolding ci_strip_iff by (elim exE conjE)
  let ?post = "dropWhile is_digit r"
  have "ds @ ?post = r" unfolding ds(1) by (rule takeWhile_dropWhile_id)
  then have "s = pre @ L @ ds @ ?post" unfolding s L(1) by (simp only:)
  moreover have "\<forall>c \<in> set ds. is_digit c" unfolding ds(1) by (auto dest: set_takeWhileD)
  moreover have "?post = [] \<or> \<not> is_digit (hd ?post)"
    using hd_dropWhile [of is_digit r] by auto
  ultimately have "s = pre @ L @ ds @ ?post
           \<and> same_ignoring_case L ''onRunStart: numTotalTestSuites: ''
           \<and> ds \<noteq> [] \<and> (\<forall>c \<in> set ds. is_digit c) \<and> (?post = [] \<or> \<not> is_digit (hd ?post))"
    using L(2) ds(2) by (intro conjI)
  then show ?thesis by (intro exI[of _ pre] exI[of _ L] exI[of _ ?post])
qed

lemma RUN_START_TEST_SUITES_REGEX_at_None:
  "RUN_START_TEST_SUITES_REGEX_at prev t = None \<longleftrightarrow>
      \<not> (\<exists>L d post. t = L @ d # post
           \<and> same_ignoring_case L ''onRunStart: numTotalTestSuites: '' \<and> is_digit d)"
proof (cases "ci_strip ''onRunStart: numTotalTestSuites: '' t")
  case None
  have "\<not> (\<exists>L d post. t = L @ d # post
       \<and> same_ignoring_case L ''onRunStart: numTotalTestSuites: '' \<and> is_digit d)"
  proof
    assume "\<exists>L d post. t = L @ d # post
       \<and> same_ignoring_case L ''onRunStart: numTotalTestSuites: '' \<and> is_digit d"
    then obtain L d post where "t = L @ d # post"
      "same_ignoring_case L ''onRunStart: numTotalTestSuites: ''" by (elim exE conjE)
    then have "ci_strip ''onRunStart: numTotalTestSuites: '' t = Some (d # post)"
      unfolding ci_strip_iff by (intro exI[of _ L] conjI)
    with None show False by simp
  qed
  with None show ?thesis by (simp add: RUN_START_TEST_SUITES_REGEX_at_def)
next
  case (Some r)
  have "takeWhile is_digit r = [] \<longleftrightarrow> \<not> (\<exists>L d post. t = L @ d # post
       \<and> same_ignoring_case L ''onRunStart: numTotalTestSuites: '' \<and> is_digit d)"
  proof
    assume e: "takeWhile is_digit r = []"
    show "\<not> (\<exists>L d post. t = L @ d # post
       \<and> same_ignoring_case L ''onRunStart: numTotalTestSuites: '' \<and> is_digit d)"
    proof
      assume "\<exists>L d post. t = L @ d # post
       \<and> same_ignoring_case L ''onRunStart: numTotalTestSuites: '' \<and> is_digit d"
      then obtain L d post where x: "t = L @ d # post"
        "same_ignoring_case L ''onRunStart: numTotalTestSuites: ''" "is_digit d"
        by (elim exE conjE)
      then have "ci_strip ''onRunStart: numTotalTestSuites: '' t = Some (d # post)"
        unfolding ci_strip_iff by (intro exI[of _ L] conjI)
      with Some have "r = d # post" by simp
      with x(3) e show False by simp
    qed
  next
    assume n: "\<not> (\<exists>L d post. t = L @ d # post
       \<and> same_ignoring_case L ''onRunStart: numTotalTestSuites: '' \<and> is_digit d)"
    from Some obtain L where L: "t = L @ r" "same_ignoring_case L ''onRunStart: numTotalTestSuites: ''"
      unfolding ci_strip_iff by (elim exE conjE)
    show "takeWhile is_digit r = []"
    proof (cases r)
      case Nil
      then show ?thesis by simp
    next
      case (Cons d post)
      have "\<not> is_digit d"
      proof
        assume "is_digit d"
        with L Cons have "t = L @ d # post
          \<and> same_ignoring_case L ''onRunStart: numTotalTestSuites: '' \<and> is_digit d"
          by (simp only: simp_thms)
        then have "\<exists>L d post. t = L @ d # post
          \<and> same_ignoring_case L ''onRunStart: numTotalTestSuites: '' \<and> is_digit d"
          by (intro exI[of _ L] exI[of _ d] exI[of _ post])
        with n show False by (rule notE)
      qed
      with Cons show ?thesis by simp
    qed
  qed
  with Some show ?thesis by (simp add: RUN_START_TEST_SUITES_REGEX_at_def Let_def)
qed

lemma RUN_START_TEST_SUITES_REGEX_match_None:
  "RUN_START_TEST_SUITES_REGEX_match s = None \<longleftrightarrow>
     \<not> (\<exists>pre L d post. s = pre @ L @ d # post
           \<and> same_ignoring_case L ''onRunStart: numTotalTestSuites: '' \<and> is_digit d)"
  (is "?L \<longleftrightarrow> \<not> ?R")
proof
  assume l: ?L
  show "\<not> ?R"
  proof
    assume ?R
    then obtain pre L d post where x: "s = pre @ L @ d # post"
      "same_ignoring_case L ''onRunStart: numTotalTestSuites: ''" "is_digit d"
      by (elim exE conjE)
    from l x(1) have "RUN_START_TEST_SUITES_REGEX_at (char_before None pre) (L @ d # post) = None"
      unfolding RUN_START_TEST_SUITES_REGEX_match_def exec_None_iff by (elim allE impE)
    moreover from x(2,3) have "\<exists>L' d' post'. L @ d # post = L' @ d' # post'
           \<and> same_ignoring_case L' ''onRunStart: numTotalTestSuites: '' \<and> is_digit d'"
      by (intro exI[of _ L] exI[of _ d] exI[of _ post] conjI refl)
    ultimately show False unfolding RUN_START_TEST_SUITES_REGEX_at_None by (rule notE)
  qed
next
  assume r: "\<not> ?R"
  have "\<forall>pre post. s = pre @ post \<longrightarrow>
      RUN_START_TEST_SUITES_REGEX_at (char_before None pre) post = None"
  proof (intro allI impI)
    fix pre post0 assume s: "s = pre @ post0"
    show "RUN_START_TEST_SUITES_REGEX_at (char_before None pre) post0 = None"
      unfolding RUN_START_TEST_SUITES_REGEX_at_None
    proof
      assume "\<exists>L d post. post0 = L @ d # post
           \<and> same_ignoring_case L ''onRunStart: numTotalTestSuites: '' \<and> is_digit d"
      then obtain L d post where "post0 = L @ d # post"
        "same_ignoring_case L ''onRunStart: numTotalTestSuites: ''" "is_digit d"
        by (elim exE conjE)
      with s have "s = pre @ L @ d # post
           \<and> same_ignoring_case L ''onRunStart: numTotalTestSuites: '' \<and> is_digit d"
        by (simp only: simp_thms)
      then have ?R by (intro exI[of _ pre] exI[of _ L] exI[of _ d] exI[of _ post])
      with r show False by (rule notE)
    qed
  qed
  then show ?L unfolding RUN_START_TEST_SUITES_REGEX_match_def exec_None_iff .
qed

lemma RUN_EXEC_ERROR_match_Some:
  assumes "RUN_EXEC_ERROR_match s = Some t"
  shows "\<exists>pre L post. s = pre @ L @ t @ post
           \<and> same_ignoring_case L ''onRunComplete: execError: ''
           \<and> (\<forall>c \<in> set t. \<not> LineTerminator c) \<and> (post = [] \<or> LineTerminator (hd post))"
proof -
  from exec_Some[OF assms[unfolded RUN_EXEC_ERROR_match_def]]
  obtain pre post0 where s: "s = pre @ post0"
    and at: "RUN_EXEC_ERROR_at (char_before None pre) post0 = Some t"
    by (elim exE conjE)
  from at obtain r where r: "ci_strip ''onRunComplete: execError: '' post0 = Some r"
    and t: "t = takeWhile (\<lambda>c. \<not> LineTerminator c) r"
    by (cases "ci_strip ''onRunComplete: execError: '' post0")
       (simp_all add: RUN_EXEC_ERROR_at_def)
  from r obtain L where L: "post0 = L @ r" "same_ignoring_case L ''onRunComplete: execError: ''"
    unfolding ci_strip_iff by (elim exE conjE)
  let ?post = "dropWhile (\<lambda>c. \<not> LineTerminator c) r"
  have "t @ ?post = r" unfolding t by (rule takeWhile_dropWhile_id)
  then have "s = pre @ L @ t @ ?post" unfolding s L(1) by (simp only:)
  moreover have "\<forall>c \<in> set t. \<not> LineTerminator c" unfolding t by (auto dest: set_takeWhileD)
  moreover have "?post = [] \<or> LineTerminator (hd ?post)"
    using hd_dropWhile [of "\<lambda>c. \<not> LineTerminator c" r] by auto
  ultimately have "s = pre @ L @ t @ ?post
           \<and> same_ignoring_case L ''onRunComplete: execError: ''
           \<and> (\<forall>c \<in> set t. \<not> LineTerminator c) \<and> (?post = [] \<or> LineTerminator (hd ?post))"
    using L(2) by (intro conjI)
  then show ?thesis by (intro exI[of _ pre] exI[of _ L] exI[of _ ?post])
qed

lemma RUN_EXEC_ERROR_match_None:
  "RUN_EXEC_ERROR_match s = None \<longleftrightarrow>
     \<not> (\<exists>pre L post. s = pre @ L @ post \<and> same_ignoring_case L ''onRunComplete: execError: '')"
proof -
  have at: "\<And>prev t. RUN_EXEC_ERROR_at prev t = None
      \<longleftrightarrow> ci_strip ''onRunComplete: execError: '' t = None"
    by (simp add: RUN_EXEC_ERROR_at_def split: option.splits)
  have "RUN_EXEC_ERROR_match s \<noteq> None \<longleftrightarrow>
      (\<exists>pre post. s = pre @ post \<and> ci_strip ''onRunComplete: execError: '' post \<noteq> None)"
    unfolding RUN_EXEC_ERROR_match_def exec_not_None_iff at ..
  also have "\<dots> \<longleftrightarrow>
      (\<exists>pre L post. s = pre @ L @ post \<and> same_ignoring_case L ''onRunComplete: execError: '')"
    unfolding ci_strip_not_None by blast
  finally have "RUN_EXEC_ERROR_match s \<noteq> None \<longleftrightarrow>
      (\<exists>pre L post. s = pre @ L @ post \<and> same_ignoring_case L ''onRunComplete: execError: '')" .
  then show ?thesis by blast
qed

lemma rest_of_line_Some_iff:
  "rest_of_line r = Some t \<longleftrightarrow> (\<exists>body. r = body @ LF # t \<and> body \<noteq> [] \<and> LF \<notin> set body)"
  (is "?L \<longleftrightarrow> ?R")
proof
  assume ?L
  let ?body = "takeWhile (\<lambda>c. c \<noteq> LF) r" and ?d = "dropWhile (\<lambda>c. c \<noteq> LF) r"
  from \<open>?L\<close> have b: "?body \<noteq> []" and d: "?d \<noteq> []" and t: "t = tl ?d"
    by (simp_all add: rest_of_line_def Let_def split: if_splits)
  from d have "hd ?d = LF" using hd_dropWhile [of "\<lambda>c. c \<noteq> LF" r] by simp
  with d t have "?d = LF # t" by (cases ?d) simp_all
  moreover have "?body @ ?d = r" by (rule takeWhile_dropWhile_id)
  ultimately have "r = ?body @ LF # t" by (simp only:)
  moreover have "LF \<notin> set ?body" by (auto dest: set_takeWhileD)
  ultimately have "r = ?body @ LF # t \<and> ?body \<noteq> [] \<and> LF \<notin> set ?body"
    using b by (intro conjI)
  then show ?R by (intro exI[of _ ?body])
next
  assume ?R
  then obtain body where r: "r = body @ LF # t" and b: "body \<noteq> []" "LF \<notin> set body"
    by (elim exE conjE)
  from b(2) have "takeWhile (\<lambda>c. c \<noteq> LF) (body @ LF # t) = body"
    and "dropWhile (\<lambda>c. c \<noteq> LF) (body @ LF # t) = LF # t"
    by (auto simp: takeWhile_append dropWhile_append)
  with b(1) show ?L unfolding r by (simp add: rest_of_line_def)
qed

lemma same_ignoring_case_LF:
  "same_ignoring_case K k \<Longrightarrow> LF \<notin> set k \<Longrightarrow> LF \<notin> set K"
proof (induction K arbitrary: k)
  case Nil
  then show ?case by simp
next
  case (Cons a K)
  then obtain b k' where k: "k = b # k'" by (cases k) (auto simp: same_ignoring_case_def)
  with Cons.prems have ab: "canonicalize a = canonicalize b" and "same_ignoring_case K k'"
    and "b \<noteq> LF" "LF \<notin> set k'"
    by (auto simp: same_ignoring_case_def)
  then have "LF \<notin> set K" using Cons.IH by blast
  moreover have "a \<noteq> LF"
  proof
    assume "a = LF"
    then have "LineTerminator a" by (simp add: LF_def LineTerminator_def)
    moreover have "\<not> LineTerminator a \<or> LineTerminator b"
      using canonicalize_LineTerminator [of b a] ab by auto
    ultimately have "LineTerminator b" by simp
    then have "(of_char b :: nat) = 10 \<or> (of_char b :: nat) = 13"
      by (simp add: LineTerminator_of_char)
    moreover from \<open>a = LF\<close> ab have "canonicalize b = 10" by (simp add: canonicalize_def LF_def)
    ultimately have "(of_char b :: nat) = 10" by (auto simp: canonicalize_def Let_def split: if_splits)
    then have "(of_char b :: nat) = of_char LF" by (simp add: LF_def)
    then have "b = LF" by (simp only: of_char_eq_iff)
    with \<open>b \<noteq> LF\<close> show False by simp
  qed
  ultimately show ?case by simp
qed

text \<open>The rest after the first line feed of a text that has one.\<close>

lemma after_first_LF:
  "pre @ LF # t = pre' @ LF # t' \<Longrightarrow> LF \<notin> set pre \<Longrightarrow> LF \<notin> set pre' \<Longrightarrow> t = t'"
proof (induction pre arbitrary: pre')
  case Nil
  then show ?case by (cases pre') auto
next
  case (Cons a pre)
  then show ?case by (cases pre') auto
qed

lemma first_alternative_Some:
  "first_alternative ks s = Some t \<Longrightarrow>
   \<exists>k \<in> set ks. \<exists>K body. s = K @ body @ LF # t \<and> same_ignoring_case K k
      \<and> body \<noteq> [] \<and> LF \<notin> set body"
proof (induction ks)
  case Nil
  then show ?case by simp
next
  case (Cons k ks)
  show ?case
  proof (cases "\<exists>r. ci_strip k s = Some r \<and> rest_of_line r = Some t")
    case True
    then obtain r where "ci_strip k s = Some r" "rest_of_line r = Some t" by (elim exE conjE)
    then obtain K body where "s = K @ r" "same_ignoring_case K k"
      "r = body @ LF # t" "body \<noteq> []" "LF \<notin> set body"
      unfolding ci_strip_iff rest_of_line_Some_iff by (elim exE conjE)
    then have "s = K @ body @ LF # t \<and> same_ignoring_case K k \<and> body \<noteq> [] \<and> LF \<notin> set body"
      by (simp only: simp_thms)
    then have "\<exists>K body. s = K @ body @ LF # t \<and> same_ignoring_case K k
      \<and> body \<noteq> [] \<and> LF \<notin> set body" by (intro exI[of _ K] exI[of _ body])
    then show ?thesis by simp
  next
    case False
    with Cons.prems have "first_alternative ks s = Some t"
      by (auto split: option.splits)
    then have "\<exists>k \<in> set ks. \<exists>K body. s = K @ body @ LF # t \<and> same_ignoring_case K k
      \<and> body \<noteq> [] \<and> LF \<notin> set body" by (rule Cons.IH)
    then show ?thesis by simp
  qed
qed

lemma first_alternative_None:
  "first_alternative ks s = None \<Longrightarrow> k \<in> set ks \<Longrightarrow> same_ignoring_case K k \<Longrightarrow>
   body \<noteq> [] \<Longrightarrow> LF \<notin> set body \<Longrightarrow> s \<noteq> K @ body @ LF # t"
proof (induction ks)
  case Nil
  then show ?case by simp
next
  case (Cons k' ks)
  show ?case
  proof
    assume s: "s = K @ body @ LF # t"
    show False
    proof (cases "k = k'")
      case True
      with Cons.prems(3) have "same_ignoring_case K k'" by simp
      with s have "ci_strip k' s = Some (body @ LF # t)"
        unfolding ci_strip_iff by (intro exI[of _ K] conjI)
      moreover from Cons.prems(4,5) have "rest_of_line (body @ LF # t) = Some t"
        unfolding rest_of_line_Some_iff by (intro exI[of _ body] conjI refl)
      ultimately show False using Cons.prems(1) by simp
    next
      case False
      with Cons.prems(2) have "k \<in> set ks" by simp
      moreover from Cons.prems(1) have "first_alternative ks s = None"
        by (auto split: option.splits)
      ultimately have "s \<noteq> K @ body @ LF # t" using Cons.IH Cons.prems(3,4,5) by blast
      with s show False by simp
    qed
  qed
qed

lemma CONTROL_MESSAGES_at_Some_iff:
  "CONTROL_MESSAGES_at prev s = Some t \<longleftrightarrow>
     at_line_start prev
     \<and> (\<exists>K body. s = K @ body @ LF # t
          \<and> (same_ignoring_case K ''onRunStart'' \<or> same_ignoring_case K ''onRunComplete''
               \<or> same_ignoring_case K ''Test results written to'')
          \<and> body \<noteq> [] \<and> LF \<notin> set body)"
  (is "?L \<longleftrightarrow> ?B \<and> ?R")
proof
  assume ?L
  then have b: ?B and "first_alternative CONTROL_MESSAGES_keywords s = Some t"
    by (simp_all add: CONTROL_MESSAGES_at_def split: if_splits)
  from first_alternative_Some[OF this(2)]
  obtain k K body where "k \<in> set CONTROL_MESSAGES_keywords" "s = K @ body @ LF # t"
    "same_ignoring_case K k" "body \<noteq> []" "LF \<notin> set body" by (elim bexE exE conjE)
  then have "s = K @ body @ LF # t
          \<and> (same_ignoring_case K ''onRunStart'' \<or> same_ignoring_case K ''onRunComplete''
               \<or> same_ignoring_case K ''Test results written to'')
          \<and> body \<noteq> [] \<and> LF \<notin> set body"
    by (auto simp: CONTROL_MESSAGES_keywords_def)
  then have ?R by (intro exI[of _ K] exI[of _ body])
  with b show "?B \<and> ?R" by (rule conjI)
next
  assume "?B \<and> ?R"
  then obtain K body where b: ?B and s: "s = K @ body @ LF # t"
    and K: "same_ignoring_case K ''onRunStart'' \<or> same_ignoring_case K ''onRunComplete''
               \<or> same_ignoring_case K ''Test results written to''"
    and body: "body \<noteq> []" "LF \<notin> set body" by (elim exE conjE)
  from K obtain k where k: "k \<in> set CONTROL_MESSAGES_keywords" "same_ignoring_case K k"
    by (auto simp: CONTROL_MESSAGES_keywords_def)
  then have "LF \<notin> set k" by (auto simp: CONTROL_MESSAGES_keywords_def LF_def)
  with k(2) have KLF: "LF \<notin> set K" by (rule same_ignoring_case_LF)
  show ?L
  proof (cases "first_alternative CONTROL_MESSAGES_keywords s")
    case None
    have "s \<noteq> K @ body @ LF # t" by (rule first_alternative_None[OF None k(1) k(2) body])
    from this s show ?thesis by (rule notE)
  next
    case (Some t')
    from first_alternative_Some[OF Some]
    obtain k' K' body' where k': "k' \<in> set CONTROL_MESSAGES_keywords" "s = K' @ body' @ LF # t'"
      "same_ignoring_case K' k'" "body' \<noteq> []" "LF \<notin> set body'" by (elim bexE exE conjE)
    then have "LF \<notin> set k'" by (auto simp: CONTROL_MESSAGES_keywords_def LF_def)
    with k'(3) have "LF \<notin> set K'" by (rule same_ignoring_case_LF)
    with k'(5) KLF body(2) have "LF \<notin> set (K @ body)" "LF \<notin> set (K' @ body')" by simp_all
    moreover from s k'(2) have "(K @ body) @ LF # t = (K' @ body') @ LF # t'" by simp
    ultimately have "t = t'" by (rule after_first_LF[rotated])
    with Some b show ?thesis by (simp add: CONTROL_MESSAGES_at_def)
  qed
qed

lemma takeWhile_eq_iff:
  "takeWhile P s = xs \<longleftrightarrow>
     (\<exists>rest. s = xs @ rest \<and> (\<forall>x \<in> set xs. P x) \<and> (rest = [] \<or> \<not> P (hd rest)))"
  (is "?L \<longleftrightarrow> ?R")
proof
  assume l: ?L
  have "takeWhile P s @ dropWhile P s = s" by (rule takeWhile_dropWhile_id)
  then have "s = xs @ dropWhile P s" unfolding l by (rule sym)
  moreover have "\<forall>x \<in> set xs. P x" unfolding l[symmetric] by (auto dest: set_takeWhileD)
  moreover have "dropWhile P s = [] \<or> \<not> P (hd (dropWhile P s))"
    using hd_dropWhile [of P s] by auto
  ultimately have "s = xs @ dropWhile P s \<and> (\<forall>x \<in> set xs. P x)
      \<and> (dropWhile P s = [] \<or> \<not> P (hd (dropWhile P s)))" by (intro conjI)
  then show ?R by (intro exI[of _ "dropWhile P s"])
next
  assume ?R
  then obtain rest where s: "s = xs @ rest" and xs: "\<forall>x \<in> set xs. P x"
    and rest: "rest = [] \<or> \<not> P (hd rest)" by (elim exE conjE)
  from rest have "takeWhile P rest = []" by (cases rest) auto
  with xs show ?L unfolding s by (simp add: takeWhile_append)
qed

lemma JsonArrayRegexp_at_Some_iff:
  "JsonArrayRegexp_at prev s = Some line \<longleftrightarrow>
     at_line_start prev
     \<and> (\<exists>rest. s = line @ rest \<and> (\<forall>c \<in> set line. \<not> LineTerminator c)
          \<and> (rest = [] \<or> LineTerminator (hd rest)))
     \<and> 2 \<le> length line \<and> hd line = CHR ''['' \<and> last line = CHR '']''"
proof -
  have "takeWhile (\<lambda>c. \<not> LineTerminator c) s = line \<longleftrightarrow>
     (\<exists>rest. s = line @ rest \<and> (\<forall>c \<in> set line. \<not> LineTerminator c)
          \<and> (rest = [] \<or> LineTerminator (hd rest)))"
    unfolding takeWhile_eq_iff by (simp only: not_not)
  then show ?thesis
    unfolding JsonArrayRegexp_at_def Let_def by (auto split: if_splits)
qed

lemma match_JsonArrayRegexp_sound:
  "line \<in> set (match_JsonArrayRegexp prev s) \<Longrightarrow>
   \<exists>pre post. s = pre @ post \<and> JsonArrayRegexp_at (char_before prev pre) post = Some line"
proof (induction prev s rule: match_JsonArrayRegexp.induct)
  case (1 prev)
  then show ?case by simp
next
  case (2 prev c cs)
  show ?case
  proof (cases "JsonArrayRegexp_at prev (c # cs)")
    case None
    with "2.prems" have "line \<in> set (match_JsonArrayRegexp (Some c) cs)" by simp
    from "2.IH"(1)[OF None this]
    obtain pre post where "cs = pre @ post"
      "JsonArrayRegexp_at (char_before (Some c) pre) post = Some line" by (elim exE conjE)
    then have "c # cs = (c # pre) @ post
      \<and> JsonArrayRegexp_at (char_before prev (c # pre)) post = Some line"
      by (simp only: char_before_Cons append_Cons simp_thms)
    then show ?thesis by (intro exI[of _ "c # pre"] exI[of _ post])
  next
    case (Some l)
    show ?thesis
    proof (cases "line = l")
      case True
      with Some have "c # cs = [] @ (c # cs)
        \<and> JsonArrayRegexp_at (char_before prev []) (c # cs) = Some line"
        by (simp add: char_before_def)
      then show ?thesis by (intro exI[of _ "[]"] exI[of _ "c # cs"])
    next
      case False
      with Some "2.prems"
      have "line \<in> set (match_JsonArrayRegexp (Some (last l)) (drop (length l) (c # cs)))"
        by simp
      from "2.IH"(2)[OF Some this]
      obtain pre post where d: "drop (length l) (c # cs) = pre @ post"
        and at: "JsonArrayRegexp_at (char_before (Some (last l)) pre) post = Some line"
        by (elim exE conjE)
      from Some have l: "l = takeWhile (\<lambda>c. \<not> LineTerminator c) (c # cs)" and "l \<noteq> []"
        by (auto simp: JsonArrayRegexp_at_def Let_def split: if_splits)
      have "take (length l) (c # cs) = l"
        unfolding l by (simp only: takeWhile_eq_take[symmetric])
      then have "c # cs = l @ drop (length l) (c # cs)"
        using append_take_drop_id [of "length l" "c # cs"] by (simp only:)
      then have "c # cs = (l @ pre) @ post" unfolding d by simp
      moreover from \<open>l \<noteq> []\<close> have "char_before prev (l @ pre) = char_before (Some (last l)) pre"
        by (simp add: char_before_def)
      ultimately have "c # cs = (l @ pre) @ post
        \<and> JsonArrayRegexp_at (char_before prev (l @ pre)) post = Some line"
        using at by (simp only: simp_thms)
      then show ?thesis by (intro exI[of _ "l @ pre"] exI[of _ post])
    qed
  qed
qed

text \<open>In the cleaned text, no line start is followed by a keyword, a non-empty rest of the line
  and a line feed.\<close>

lemma cleanupOutput_no_control_line:
  assumes "cleanupOutput raw = pre @ K @ body @ LF # t"
    and "pre = [] \<or> LineTerminator (last pre)"
    and "body \<noteq> []" and "LF \<notin> set body"
  shows "\<not> (same_ignoring_case K ''onRunStart'' \<or> same_ignoring_case K ''onRunComplete''
            \<or> same_ignoring_case K ''Test results written to'')"
proof
  assume K: "same_ignoring_case K ''onRunStart'' \<or> same_ignoring_case K ''onRunComplete''
            \<or> same_ignoring_case K ''Test results written to''"
  have "exec CONTROL_MESSAGES_at None (cleanupOutput raw) = None"
    unfolding cleanupOutput_def by (rule exec_replace_CONTROL_MESSAGES)
  with assms(1) have none: "CONTROL_MESSAGES_at (char_before None pre) (K @ body @ LF # t) = None"
    unfolding exec_None_iff by (elim allE impE)
  from assms(2) have "at_line_start (char_before None pre)"
    by (auto simp: at_line_start_def char_before_def)
  moreover from K assms(3,4)
  have "\<exists>K' body'. K @ body @ LF # t = K' @ body' @ LF # t
          \<and> (same_ignoring_case K' ''onRunStart'' \<or> same_ignoring_case K' ''onRunComplete''
               \<or> same_ignoring_case K' ''Test results written to'')
          \<and> body' \<noteq> [] \<and> LF \<notin> set body'"
    by (intro exI[of _ K] exI[of _ body] conjI refl)
  ultimately have "CONTROL_MESSAGES_at (char_before None pre) (K @ body @ LF # t) = Some t"
    unfolding CONTROL_MESSAGES_at_Some_iff by (rule conjI)
  with none show False by simp
qed

text \<open>Unfolding sets for evaluating the model on given inputs.\<close>

lemmas eval_text =
  shouldIgnoreOutput_def canonicalize_def is_digit_def LF_def LineTerminator_def at_line_start_def
  RUN_START_TEST_SUITES_REGEX_match_def RUN_START_TEST_SUITES_REGEX_at_def
  RUN_EXEC_ERROR_match_def RUN_EXEC_ERROR_at_def
  cleanupOutput_def CONTROL_MESSAGES_at_def CONTROL_MESSAGES_keywords_def rest_of_line_def
  SnapshotFailRegex_test_def SnapshotFailRegex_at_def
  IS_OUTSIDE_REPOSITORY_REGEXP_test_def
  WATCH_IS_NOT_SUPPORTED_REGEXP_test_def WATCH_IS_NOT_SUPPORTED_REGEXP_at_def

lemmas eval_listener =
  onExecutableStdErr_def handleRunStart_def handleRunComplete_def runStarted_def runEnded_def
  start_def cancel_def getNumTotalTestSuites_def Number_integer_def Let_def
  handleSnapshotTestFailuer_def handleWatchNotSupportedError_def handleWatchProcessCrash_def
  onExecutableOutput_def onTerminalError_def onProcessExit_def onProcessClose_def
  onExecutableJSON_def timer_expired_def onLongRun_def
  Abstract_onProcessStarting_def Abstract_onProcessClose_def Abstract_onProcessExit_def
  isProcessError_def unexpected_event_def

lemmas eval_list =
  List_onProcessClose_def List_onProcessExit_def List_onExecutableOutput_def
  List_onExecutableStdErr_def Abstract_onExecutableStdErr_def Abstract_onProcessClose_def
  Abstract_onProcessExit_def isProcessError_def new_ListTestFileListener_def
  JsonArrayRegexp_at_def LineTerminator_def at_line_start_def Let_def

section \<open>Properties of the long-run monitor\<close>

text \<open>
  C4. Threshold resolution in the constructor: an unset option gives the default of 60000 ms; a
  positive number is taken as the threshold unchanged; zero, a negative number or a value that
  is not a number gives the threshold \<open>-1\<close>. A new monitor has no timer. For a monitor whose
  threshold is not positive, \<open>start()\<close> returns at once: it logs nothing and leaves the
  monitor as it was, so the monitor built from a disabling value still has no timer after
  \<open>start()\<close>.
\<close>

theorem LongRunMonitor_threshold_resolution:
  "thresholdMs (new_LongRunMonitor None) = 60000
   \<and> (0 < n \<longrightarrow> thresholdMs (new_LongRunMonitor (Some (Number n))) = n)
   \<and> (k \<le> 0 \<longrightarrow> thresholdMs (new_LongRunMonitor (Some (Number k))) = - 1
                \<and> start (new_LongRunMonitor (Some (Number k)))
                    = ([], new_LongRunMonitor (Some (Number k)))
                \<and> timer (snd (start (new_LongRunMonitor (Some (Number k))))) = None)
   \<and> thresholdMs (new_LongRunMonitor (Some (Text t))) = - 1
   \<and> start (new_LongRunMonitor (Some (Text t))) = ([], new_LongRunMonitor (Some (Text t)))
   \<and> timer (snd (start (new_LongRunMonitor (Some (Text t))))) = None
   \<and> timer (new_LongRunMonitor opt) = None
   \<and> (thresholdMs m \<le> 0 \<longrightarrow> start m = ([], m))"
  by (auto simp: new_LongRunMonitor_def DEFAULT_LONG_RUN_THRESHOLD_def start_def
           split: option.splits MonitorLongRun.splits)

theorem LongRunMonitor_threshold_resolution_witness:
  "thresholdMs (new_LongRunMonitor (Some (Number 120000))) = 120000
   \<and> thresholdMs (new_LongRunMonitor (Some (Number 0))) = - 1
   \<and> start (new_LongRunMonitor (Some (Number 0))) = ([], \<lparr>thresholdMs = - 1, timer = None\<rparr>)
   \<and> thresholdMs (new_LongRunMonitor (Some (Text ''off''))) = - 1
   \<and> start \<lparr>thresholdMs = - 1, timer = None\<rparr> = ([], \<lparr>thresholdMs = - 1, timer = None\<rparr>)"
  using LongRunMonitor_threshold_resolution
          [of 120000 0 "''off''" None "\<lparr>thresholdMs = - 1, timer = None\<rparr>"]
  by (simp add: new_LongRunMonitor_def)

text \<open>
  C5. \<open>cancel()\<close> is a total function of the monitor with no effect on the outside. After it the
  monitor has no timer and the same threshold; on a monitor without a timer it changes
  nothing; a second \<open>cancel()\<close> changes nothing after the first.
\<close>

theorem cancel_idempotent:
  "timer (cancel m) = None
   \<and> thresholdMs (cancel m) = thresholdMs m
   \<and> cancel (cancel m) = cancel m
   \<and> (timer m = None \<longrightarrow> cancel m = m)"
  by (cases "timer m") (simp_all add: cancel_def)

theorem cancel_idempotent_witness:
  "timer (new_LongRunMonitor None) = None
   \<and> cancel (new_LongRunMonitor None) = new_LongRunMonitor None
   \<and> cancel (cancel (new_LongRunMonitor None)) = new_LongRunMonitor None"
  using cancel_idempotent [of "new_LongRunMonitor None"]
  by (simp add: new_LongRunMonitor_def)

section \<open>Properties of the run listener\<close>

subsection \<open>How the stderr handler is put together\<close>

lemma fst_handleRunStart_data: "filter is_data (fst (handleRunStart p message l)) = []"
  by (simp add: handleRunStart_def runStarted_def start_def split: option.splits prod.splits)

lemma handleSnapshotTestFailuer_data: "filter is_data (handleSnapshotTestFailuer p message l) = []"
  by (simp add: handleSnapshotTestFailuer_def Let_def)

lemma handleWatchNotSupportedError_data: "filter is_data (handleWatchNotSupportedError p message) = []"
  by (simp add: handleWatchNotSupportedError_def)

lemma fst_handleRunComplete:
  "fst (handleRunComplete p message l) =
     (if includes_str message ''onRunComplete'' then
        (case RUN_EXEC_ERROR_match message of
           Some matched1 \<Rightarrow> [Fire (Ev_data p matched1 None (Some True) (Some True))]
         | None \<Rightarrow> []) @ [Fire (Ev_end p)]
      else [])"
  by (simp add: handleRunComplete_def)

lemma fst_onExecutableStdErr:
  "\<not> shouldIgnoreOutput message \<Longrightarrow>
   fst (onExecutableStdErr p message raw l) =
     fst (handleRunStart p message l)
       @ [Fire (Ev_data p message (Some (cleanupOutput raw)) None None)]
       @ fst (handleRunComplete p message (snd (handleRunStart p message l)))
       @ handleSnapshotTestFailuer p message
           (snd (handleRunComplete p message (snd (handleRunStart p message l))))
       @ handleWatchNotSupportedError p message"
  by (simp add: onExecutableStdErr_def Let_def split: prod.splits)

lemma snd_onExecutableStdErr:
  "\<not> shouldIgnoreOutput message \<Longrightarrow>
   snd (onExecutableStdErr p message raw l) =
     snd (handleRunComplete p message (snd (handleRunStart p message l)))"
  by (simp add: onExecutableStdErr_def Let_def split: prod.splits)

lemma handleRunStart_eq:
  "handleRunStart p message l =
     (if includes_str message ''onRunStart'' then
        (fst (start (longRunMonitor l)) @ [Fire (Ev_start p)],
         l\<lparr>runInfo := Some \<lparr>process = p, numTotalTestSuites = getNumTotalTestSuites message\<rparr>,
           longRunMonitor := snd (start (longRunMonitor l))\<rparr>)
      else ([], l))"
  by (simp add: handleRunStart_def runStarted_def split: prod.splits)

lemma start_effects: "fst (start m) = [] \<or> fst (start m) = [Logging Warn ''LongRunMonitor is already runninng'']"
  by (simp add: start_def split: option.splits)

lemma start_is_start: "filter is_start (fst (start m)) = []"
  using start_effects [of m] by auto

lemma handleRunStart_is_start:
  "filter is_start (fst (handleRunStart p message l)) =
     (if includes_str message ''onRunStart'' then [Fire (Ev_start p)] else [])"
  by (simp add: handleRunStart_eq start_is_start)

lemma handleRunComplete_is_start: "filter is_start (fst (handleRunComplete p message l)) = []"
  by (simp add: fst_handleRunComplete split: option.splits)

lemma handleSnapshotTestFailuer_is_start: "filter is_start (handleSnapshotTestFailuer p message l) = []"
  by (simp add: handleSnapshotTestFailuer_def Let_def)

lemma handleWatchNotSupportedError_is_start: "filter is_start (handleWatchNotSupportedError p message) = []"
  by (simp add: handleWatchNotSupportedError_def)

lemma start_armed: "0 < thresholdMs m \<Longrightarrow> timer (snd (start m)) = Some (thresholdMs m)"
  by (simp add: start_def cancel_def split: option.splits)



lemma snd_handleRunComplete:
  "snd (handleRunComplete p message l) = (if includes_str message ''onRunComplete'' then runEnded l else l)"
  by (simp add: handleRunComplete_def)










lemma run_Cons:
  "fst (run clean (x # xs) l) = fst (step clean x l) @ fst (run clean xs (snd (step clean x l)))"
  "snd (run clean (x # xs) l) = snd (run clean xs (snd (step clean x l)))"
  by (simp_all split: prod.splits)


lemma start_no_recovery: "filter (\<lambda>x. is_ScheduleProcess x \<or> is_Stop x) (fst (start m)) = []"
  using start_effects [of m] by auto

lemma handleRunStart_no_recovery:
  "filter (\<lambda>x. is_ScheduleProcess x \<or> is_Stop x) (fst (handleRunStart p message l)) = []"
  by (simp add: handleRunStart_eq start_no_recovery)

lemma handleRunComplete_no_recovery:
  "filter (\<lambda>x. is_ScheduleProcess x \<or> is_Stop x) (fst (handleRunComplete p message l)) = []"
  by (simp add: fst_handleRunComplete split: option.splits)

lemma handleSnapshotTestFailuer_no_recovery:
  "filter (\<lambda>x. is_ScheduleProcess x \<or> is_Stop x) (handleSnapshotTestFailuer p message l) = []"
  by (simp add: handleSnapshotTestFailuer_def Let_def)

lemma handleWatchNotSupportedError_recovery:
  "IS_OUTSIDE_REPOSITORY_REGEXP_test message \<or> WATCH_IS_NOT_SUPPORTED_REGEXP_test message \<Longrightarrow>
   filter (\<lambda>x. is_ScheduleProcess x \<or> is_Stop x) (handleWatchNotSupportedError p message) =
     (if request_type (request p) = ''watch-tests''
      then [ScheduleProcess (Request ''watch-all-tests'' False None), Stop p] else [])"
  by (simp add: handleWatchNotSupportedError_def)

lemma handleWatchProcessCrash_error:
  "snd (handleWatchProcessCrash p) =
     (if (request_type (request p) = ''watch-tests'' \<or> request_type (request p) = ''watch-all-tests'')
          \<and> stopReason p \<noteq> Some ''on-demand''
      then Some (''Jest process \"'' @ request_type (request p) @ ''\" ended unexpectedly'')
      else None)"
  by (simp add: handleWatchProcessCrash_def Let_def)

lemma handleWatchProcessCrash_no_exit: "filter is_exit (fst (handleWatchProcessCrash p)) = []"
  by (simp add: handleWatchProcessCrash_def Let_def)

lemma onProcessClose_eq:
  "onProcessClose p l =
     (fst (handleWatchProcessCrash p)
        @ [Fire (Ev_exit p (snd (handleWatchProcessCrash p)) (exitCode l))], l)"
  by (simp add: onProcessClose_def Abstract_onProcessClose_def split: prod.splits)

lemma onProcessClose_exit:
  "filter is_exit (fst (onProcessClose p l))
     = [Fire (Ev_exit p (snd (handleWatchProcessCrash p)) (exitCode l))]"
  by (simp add: onProcessClose_eq handleWatchProcessCrash_no_exit)

lemma start_no_exit: "filter is_exit (fst (start m)) = []"
  using start_effects [of m] by auto

lemma onExecutableStdErr_no_exit: "filter is_exit (fst (onExecutableStdErr p message raw l)) = []"
proof (cases "shouldIgnoreOutput message")
  case True
  then show ?thesis by (simp add: onExecutableStdErr_def)
next
  case False
  then show ?thesis
    by (simp add: fst_onExecutableStdErr handleRunStart_eq start_no_exit fst_handleRunComplete
          handleSnapshotTestFailuer_def handleWatchNotSupportedError_def Let_def
        split: option.splits)
qed

lemma step_exit:
  "length (filter is_exit (fst (step clean x l))) = (if is_processClose x then 1 else 0)"
proof (cases x)
  case Expired
  then show ?thesis by (simp add: timer_expired_def onLongRun_def split: option.splits)
next
  case (Raw p e)
  then show ?thesis
    by (cases e)
       (simp_all add: onExecutableStdErr_no_exit onProcessClose_exit Abstract_onProcessStarting_def
          onExecutableJSON_def onExecutableOutput_def onTerminalError_def onProcessExit_def
          Abstract_onProcessExit_def unexpected_event_def)
qed

lemma run_exit:
  "length (filter is_exit (fst (run clean xs l))) = length (filter is_processClose xs)"
proof (induction xs arbitrary: l)
  case Nil
  then show ?case by simp
next
  case (Cons x xs)
  then show ?case by (simp only: run_Cons filter_append length_append step_exit) simp
qed

subsection \<open>Suppressed output\<close>




subsection \<open>Control messages in forwarded data\<close>

text \<open>
  C2 (as the code has it). For a stderr chunk that is not suppressed, the \<open>data\<close> events fired
  are the event that forwards the chunk and, when the text contains \<open>onRunComplete\<close> and
  matches \<open>RUN_EXEC_ERROR\<close>, the error event. The forwarding event carries the cleaned message
  unchanged as \<open>text\<close> and \<open>cleanupOutput raw\<close> as \<open>raw\<close>. In \<open>cleanupOutput raw\<close> no match of
  \<open>CONTROL_MESSAGES\<close> is left: nowhere does a line start with one of the three keywords (in any
  letter case) followed by at least one character other than a line feed and then a line
  feed. A text without a match is returned as it is.
\<close>

theorem stderr_data_events:
  "\<not> shouldIgnoreOutput message \<Longrightarrow>
   filter is_data (fst (onExecutableStdErr p message raw l))
     = Fire (Ev_data p message (Some (cleanupOutput raw)) None None)
       # (if includes_str message ''onRunComplete'' then
            (case RUN_EXEC_ERROR_match message of
               Some matched1 \<Rightarrow> [Fire (Ev_data p matched1 None (Some True) (Some True))]
             | None \<Rightarrow> [])
          else [])
   \<and> exec CONTROL_MESSAGES_at None (cleanupOutput raw) = None
   \<and> (cleanupOutput raw = pre @ K @ body @ LF # rest
        \<and> (pre = [] \<or> LineTerminator (last pre)) \<and> body \<noteq> [] \<and> LF \<notin> set body \<longrightarrow>
       \<not> (same_ignoring_case K ''onRunStart'' \<or> same_ignoring_case K ''onRunComplete''
            \<or> same_ignoring_case K ''Test results written to''))
   \<and> (exec CONTROL_MESSAGES_at None t = None \<longrightarrow> cleanupOutput t = t)"
proof (intro conjI impI)
  assume "\<not> shouldIgnoreOutput message"
  then show "filter is_data (fst (onExecutableStdErr p message raw l))
     = Fire (Ev_data p message (Some (cleanupOutput raw)) None None)
       # (if includes_str message ''onRunComplete'' then
            (case RUN_EXEC_ERROR_match message of
               Some matched1 \<Rightarrow> [Fire (Ev_data p matched1 None (Some True) (Some True))]
             | None \<Rightarrow> [])
          else [])"
    by (simp add: fst_onExecutableStdErr fst_handleRunStart_data handleSnapshotTestFailuer_data
          handleWatchNotSupportedError_data fst_handleRunComplete split: option.splits)
next
  show "exec CONTROL_MESSAGES_at None (cleanupOutput raw) = None"
    by (simp add: cleanupOutput_def exec_replace_CONTROL_MESSAGES)
next
  assume "cleanupOutput raw = pre @ K @ body @ LF # rest
        \<and> (pre = [] \<or> LineTerminator (last pre)) \<and> body \<noteq> [] \<and> LF \<notin> set body"
  then show "\<not> (same_ignoring_case K ''onRunStart'' \<or> same_ignoring_case K ''onRunComplete''
            \<or> same_ignoring_case K ''Test results written to'')"
    using cleanupOutput_no_control_line by blast
next
  assume "exec CONTROL_MESSAGES_at None t = None"
  then show "cleanupOutput t = t"
    by (simp add: cleanupOutput_def exec_None_replace)
qed

theorem stderr_data_events_witness:
  "\<not> shouldIgnoreOutput ''onRunStart: numTotalTestSuites: 5\<newline>PASS a.test.js\<newline>''
   \<and> filter is_data (fst (onExecutableStdErr watch_process
          ''onRunStart: numTotalTestSuites: 5\<newline>PASS a.test.js\<newline>''
          ''onRunStart: numTotalTestSuites: 5\<newline>PASS a.test.js\<newline>'' idle_listener))
       = [Fire (Ev_data watch_process ''onRunStart: numTotalTestSuites: 5\<newline>PASS a.test.js\<newline>''
                  (Some ''PASS a.test.js\<newline>'') None None)]
   \<and> cleanupOutput ''onRunStart: numTotalTestSuites: 5\<newline>PASS a.test.js\<newline>''
       = [] @ ''PASS'' @ '' a.test.js'' @ LF # []
   \<and> \<not> (same_ignoring_case ''PASS'' ''onRunStart'' \<or> same_ignoring_case ''PASS'' ''onRunComplete''
            \<or> same_ignoring_case ''PASS'' ''Test results written to'')
   \<and> exec CONTROL_MESSAGES_at None ''PASS a.test.js'' = None
   \<and> cleanupOutput ''PASS a.test.js'' = ''PASS a.test.js''"
  using stderr_data_events
          [where message = "''onRunStart: numTotalTestSuites: 5\<newline>PASS a.test.js\<newline>''"
             and p = watch_process
             and raw = "''onRunStart: numTotalTestSuites: 5\<newline>PASS a.test.js\<newline>''"
             and l = idle_listener and pre = "[]" and K = "''PASS''" and body = "'' a.test.js''"
             and rest = "[]" and t = "''PASS a.test.js''"]
  by (simp add: eval_text)

text \<open>
  C2 as stated fails: the \<open>text\<close> field of the forwarded event is the message itself, here
  with its \<open>onRunStart\<close> line; only \<open>raw\<close> is cleaned. In \<open>raw\<close> a marker line that does
  not end with a line feed stays as well.
\<close>

theorem data_text_not_cleaned_counterexample:
  "\<not> shouldIgnoreOutput ''onRunStart: numTotalTestSuites: 5\<newline>PASS a.test.js''
   \<and> starts_with ''onRunStart: numTotalTestSuites: 5\<newline>PASS a.test.js'' ''onRunStart''
   \<and> fst (onExecutableStdErr watch_process ''onRunStart: numTotalTestSuites: 5\<newline>PASS a.test.js''
        ''onRunStart: numTotalTestSuites: 5\<newline>PASS a.test.js'' idle_listener)
       = [Fire (Ev_start watch_process),
          Fire (Ev_data watch_process ''onRunStart: numTotalTestSuites: 5\<newline>PASS a.test.js''
                  (Some ''PASS a.test.js'') None None)]
   \<and> cleanupOutput ''PASS a.test.js\<newline>onRunComplete'' = ''PASS a.test.js\<newline>onRunComplete''"
  by (simp add: shouldIgnoreOutput_def canonicalize_def onExecutableStdErr_def
        handleRunStart_def handleRunComplete_def runStarted_def start_def Let_def
        cleanupOutput_def CONTROL_MESSAGES_at_def CONTROL_MESSAGES_keywords_def at_line_start_def
        rest_of_line_def LF_def LineTerminator_def
        handleSnapshotTestFailuer_def SnapshotFailRegex_test_def SnapshotFailRegex_at_def
        handleWatchNotSupportedError_def IS_OUTSIDE_REPOSITORY_REGEXP_test_def
        WATCH_IS_NOT_SUPPORTED_REGEXP_test_def WATCH_IS_NOT_SUPPORTED_REGEXP_at_def)

subsection \<open>Run start\<close>

text \<open>
  C3 (as the code has it). A stderr chunk fires \<open>start\<close>, exactly once, exactly when it is
  not suppressed and its text contains the substring \<open>onRunStart\<close>, whether or not a count
  follows. For such a chunk \<open>handleRunStart\<close> creates the run info, with the process and the
  count that \<open>getNumTotalTestSuites\<close> found, calls \<open>start()\<close> on the monitor, which arms it
  with the threshold when the threshold is positive, and fires \<open>start\<close>; the rest of the handler
  (the \<open>data\<close> event, \<open>handleRunComplete\<close> and the two checks) runs on the listener in that
  run. Afterwards the listener is in the run, unless the text also contains \<open>onRunComplete\<close>:
  then \<open>runEnded\<close> has ended the run again within the same chunk. For a text without
  \<open>onRunStart\<close>, \<open>handleRunStart\<close> does nothing: no run info is created and \<open>start()\<close> is
  not called. The count is the value \<open>N\<close> of the digits matched by
  \<open>RUN_START_TEST_SUITES_REGEX\<close> when \<open>N \<le> 2^53\<close>, and undefined when the pattern does
  not match.
\<close>

theorem run_start_detection:
  "filter is_start (fst (onExecutableStdErr p message raw l))
     = (if \<not> shouldIgnoreOutput message \<and> includes_str message ''onRunStart''
        then [Fire (Ev_start p)] else [])
   \<and> (\<not> shouldIgnoreOutput message \<and> includes_str message ''onRunStart'' \<longrightarrow>
       handleRunStart p message l
         = (fst (start (longRunMonitor l)) @ [Fire (Ev_start p)],
            l\<lparr>runInfo := Some \<lparr>process = p, numTotalTestSuites = getNumTotalTestSuites message\<rparr>,
              longRunMonitor := snd (start (longRunMonitor l))\<rparr>)
       \<and> fst (onExecutableStdErr p message raw l)
           = fst (handleRunStart p message l)
             @ [Fire (Ev_data p message (Some (cleanupOutput raw)) None None)]
             @ fst (handleRunComplete p message (snd (handleRunStart p message l)))
             @ handleSnapshotTestFailuer p message
                 (snd (handleRunComplete p message (snd (handleRunStart p message l))))
             @ handleWatchNotSupportedError p message
       \<and> snd (onExecutableStdErr p message raw l)
           = (if includes_str message ''onRunComplete''
              then runEnded (snd (handleRunStart p message l))
              else snd (handleRunStart p message l)))
   \<and> (\<not> shouldIgnoreOutput message \<and> includes_str message ''onRunStart''
        \<and> \<not> includes_str message ''onRunComplete'' \<longrightarrow>
       snd (onExecutableStdErr p message raw l)
         = l\<lparr>runInfo := Some \<lparr>process = p, numTotalTestSuites = getNumTotalTestSuites message\<rparr>,
             longRunMonitor := snd (start (longRunMonitor l))\<rparr>)
   \<and> (\<not> includes_str plain ''onRunStart'' \<longrightarrow>
       handleRunStart p plain l = ([], l)
       \<and> snd (onExecutableStdErr p plain raw l)
           = (if \<not> shouldIgnoreOutput plain \<and> includes_str plain ''onRunComplete''
              then runEnded l else l))
   \<and> (0 < thresholdMs m \<longrightarrow> timer (snd (start m)) = Some (thresholdMs m))
   \<and> (RUN_START_TEST_SUITES_REGEX_match message = Some ds \<and> digits_value 0 ds \<le> 2 ^ 53 \<longrightarrow>
       getNumTotalTestSuites message = Some (digits_value 0 ds))
   \<and> (RUN_START_TEST_SUITES_REGEX_match other = None \<longrightarrow> getNumTotalTestSuites other = None)"
proof (intro conjI impI)
  show "filter is_start (fst (onExecutableStdErr p message raw l))
     = (if \<not> shouldIgnoreOutput message \<and> includes_str message ''onRunStart''
        then [Fire (Ev_start p)] else [])"
  proof (cases "shouldIgnoreOutput message")
    case True
    then show ?thesis by (simp add: onExecutableStdErr_def)
  next
    case False
    then show ?thesis
      by (simp add: fst_onExecutableStdErr handleRunStart_is_start handleRunComplete_is_start
            handleSnapshotTestFailuer_is_start handleWatchNotSupportedError_is_start)
  qed
next
  assume "\<not> shouldIgnoreOutput message \<and> includes_str message ''onRunStart''"
  then show "handleRunStart p message l
         = (fst (start (longRunMonitor l)) @ [Fire (Ev_start p)],
            l\<lparr>runInfo := Some \<lparr>process = p, numTotalTestSuites = getNumTotalTestSuites message\<rparr>,
              longRunMonitor := snd (start (longRunMonitor l))\<rparr>)"
    by (simp add: handleRunStart_eq)
next
  assume "\<not> shouldIgnoreOutput message \<and> includes_str message ''onRunStart''"
  then show "fst (onExecutableStdErr p message raw l)
           = fst (handleRunStart p message l)
             @ [Fire (Ev_data p message (Some (cleanupOutput raw)) None None)]
             @ fst (handleRunComplete p message (snd (handleRunStart p message l)))
             @ handleSnapshotTestFailuer p message
                 (snd (handleRunComplete p message (snd (handleRunStart p message l))))
             @ handleWatchNotSupportedError p message"
    by (simp add: fst_onExecutableStdErr)
next
  assume "\<not> shouldIgnoreOutput message \<and> includes_str message ''onRunStart''"
  then show "snd (onExecutableStdErr p message raw l)
           = (if includes_str message ''onRunComplete''
              then runEnded (snd (handleRunStart p message l))
              else snd (handleRunStart p message l))"
    by (simp add: snd_onExecutableStdErr snd_handleRunComplete)
next
  assume "\<not> shouldIgnoreOutput message \<and> includes_str message ''onRunStart''
        \<and> \<not> includes_str message ''onRunComplete''"
  then show "snd (onExecutableStdErr p message raw l)
         = l\<lparr>runInfo := Some \<lparr>process = p, numTotalTestSuites = getNumTotalTestSuites message\<rparr>,
             longRunMonitor := snd (start (longRunMonitor l))\<rparr>"
    by (simp add: snd_onExecutableStdErr handleRunStart_eq handleRunComplete_def)
next
  assume "\<not> includes_str plain ''onRunStart''"
  then show "handleRunStart p plain l = ([], l)" by (simp add: handleRunStart_eq)
next
  assume n: "\<not> includes_str plain ''onRunStart''"
  show "snd (onExecutableStdErr p plain raw l)
           = (if \<not> shouldIgnoreOutput plain \<and> includes_str plain ''onRunComplete''
              then runEnded l else l)"
  proof (cases "shouldIgnoreOutput plain")
    case True
    then show ?thesis by (simp add: onExecutableStdErr_def)
  next
    case False
    with n show ?thesis
      by (simp add: snd_onExecutableStdErr snd_handleRunComplete handleRunStart_eq)
  qed
next
  assume "0 < thresholdMs m"
  then show "timer (snd (start m)) = Some (thresholdMs m)" by (rule start_armed)
next
  assume "RUN_START_TEST_SUITES_REGEX_match message = Some ds \<and> digits_value 0 ds \<le> 2 ^ 53"
  then show "getNumTotalTestSuites message = Some (digits_value 0 ds)"
    by (simp add: getNumTotalTestSuites_def Number_integer_def Let_def)
next
  assume "RUN_START_TEST_SUITES_REGEX_match other = None"
  then show "getNumTotalTestSuites other = None"
    by (simp add: getNumTotalTestSuites_def)
qed

theorem run_start_detection_witness:
  "\<not> shouldIgnoreOutput ''onRunStart: numTotalTestSuites: 5\<newline>''
   \<and> includes_str ''onRunStart: numTotalTestSuites: 5\<newline>'' ''onRunStart''
   \<and> RUN_START_TEST_SUITES_REGEX_match ''onRunStart: numTotalTestSuites: 5\<newline>'' = Some ''5''
   \<and> filter is_start (fst (onExecutableStdErr watch_process ''onRunStart: numTotalTestSuites: 5\<newline>''
          ''onRunStart: numTotalTestSuites: 5\<newline>'' idle_listener))
       = [Fire (Ev_start watch_process)]
   \<and> snd (onExecutableStdErr watch_process ''onRunStart: numTotalTestSuites: 5\<newline>''
          ''onRunStart: numTotalTestSuites: 5\<newline>'' idle_listener)
       = running_listener
   \<and> \<not> shouldIgnoreOutput ''onRunStart: numTotalTestSuites: 5\<newline>onRunComplete\<newline>''
   \<and> includes_str ''onRunStart: numTotalTestSuites: 5\<newline>onRunComplete\<newline>'' ''onRunStart''
   \<and> includes_str ''onRunStart: numTotalTestSuites: 5\<newline>onRunComplete\<newline>'' ''onRunComplete''
   \<and> handleRunStart watch_process
          ''onRunStart: numTotalTestSuites: 5\<newline>onRunComplete\<newline>'' idle_listener
       = ([Fire (Ev_start watch_process)], running_listener)
   \<and> onExecutableStdErr watch_process
          ''onRunStart: numTotalTestSuites: 5\<newline>onRunComplete\<newline>''
          ''onRunStart: numTotalTestSuites: 5\<newline>onRunComplete\<newline>'' idle_listener
       = ([Fire (Ev_start watch_process),
           Fire (Ev_data watch_process
                  ''onRunStart: numTotalTestSuites: 5\<newline>onRunComplete\<newline>''
                  (Some ''onRunComplete\<newline>'') None None),
           Fire (Ev_end watch_process)],
          runEnded running_listener)
   \<and> runEnded running_listener = idle_listener
   \<and> \<not> includes_str ''PASS'' ''onRunStart''
   \<and> onExecutableStdErr watch_process ''PASS'' ''PASS'' idle_listener
       = ([Fire (Ev_data watch_process ''PASS'' (Some ''PASS'') None None)], idle_listener)
   \<and> RUN_START_TEST_SUITES_REGEX_match ''onRunStart'' = None
   \<and> getNumTotalTestSuites ''onRunStart'' = None"
  using run_start_detection
          [where p = watch_process and message = "''onRunStart: numTotalTestSuites: 5\<newline>''"
             and raw = "''onRunStart: numTotalTestSuites: 5\<newline>''" and l = idle_listener
             and m = "\<lparr>thresholdMs = 60000, timer = None\<rparr>" and ds = "''5''"
             and other = "''onRunStart''" and plain = "''PASS''"]
        run_start_detection
          [where p = watch_process
             and message = "''onRunStart: numTotalTestSuites: 5\<newline>onRunComplete\<newline>''"
             and raw = "''onRunStart: numTotalTestSuites: 5\<newline>onRunComplete\<newline>''"
             and l = idle_listener
             and m = "\<lparr>thresholdMs = 60000, timer = None\<rparr>" and ds = "''5''"
             and other = "''onRunStart''" and plain = "''PASS''"]
  by (simp add: eval_text eval_listener)

text \<open>
  C3 as stated fails: the text \<open>onRunStart\<close> has no \<open>numTotalTestSuites: N\<close>, yet the listener
  fires \<open>start\<close>, creates the run info (without a count) and arms the monitor.
\<close>

theorem run_start_without_count_counterexample:
  "RUN_START_TEST_SUITES_REGEX_match ''onRunStart'' = None
   \<and> onExecutableStdErr watch_process ''onRunStart'' ''onRunStart'' idle_listener
       = ([Fire (Ev_start watch_process),
           Fire (Ev_data watch_process ''onRunStart'' (Some ''onRunStart'') None None)],
          idle_listener\<lparr>runInfo := Some \<lparr>process = watch_process, numTotalTestSuites = None\<rparr>,
                          longRunMonitor := \<lparr>thresholdMs = 60000, timer = Some 60000\<rparr>\<rparr>)"
  by (simp add: eval_text eval_listener)

subsection \<open>Run complete\<close>




subsection \<open>Watch mode that is not supported\<close>

text \<open>
  C7. For a stderr chunk that is not suppressed and whose text matches
  \<open>IS_OUTSIDE_REPOSITORY_REGEXP\<close> or \<open>WATCH_IS_NOT_SUPPORTED_REGEXP\<close>: when the request type of
  the process is \<open>watch-tests\<close>, the calls of \<open>scheduleProcess\<close> and \<open>process.stop\<close> made for
  the chunk are exactly one \<open>scheduleProcess({type: 'watch-all-tests'})\<close> followed by one
  \<open>stop()\<close> of that process; for any other request type there is no such call, and the
  warning is logged.
\<close>

theorem watch_not_supported_recovery:
  assumes "\<not> shouldIgnoreOutput message"
    and "IS_OUTSIDE_REPOSITORY_REGEXP_test message \<or> WATCH_IS_NOT_SUPPORTED_REGEXP_test message"
  shows "(request_type (request p) = ''watch-tests'' \<longrightarrow>
            filter (\<lambda>x. is_ScheduleProcess x \<or> is_Stop x) (fst (onExecutableStdErr p message raw l))
              = [ScheduleProcess (Request ''watch-all-tests'' False None), Stop p])
       \<and> (request_type (request q) \<noteq> ''watch-tests'' \<longrightarrow>
            filter (\<lambda>x. is_ScheduleProcess x \<or> is_Stop x) (fst (onExecutableStdErr q message raw l))
              = []
            \<and> Logging Warn (''detected watch not supported message in a not-watch process \"''
                 @ request_type (request q) @ ''\", will ignore this error'')
               \<in> set (fst (onExecutableStdErr q message raw l)))"
proof (intro conjI impI)
  assume "request_type (request p) = ''watch-tests''"
  with assms show "filter (\<lambda>x. is_ScheduleProcess x \<or> is_Stop x) (fst (onExecutableStdErr p message raw l))
              = [ScheduleProcess (Request ''watch-all-tests'' False None), Stop p]"
    by (simp add: fst_onExecutableStdErr handleRunStart_no_recovery handleRunComplete_no_recovery
          handleSnapshotTestFailuer_no_recovery handleWatchNotSupportedError_recovery)
next
  assume q: "request_type (request q) \<noteq> ''watch-tests''"
  with assms show "filter (\<lambda>x. is_ScheduleProcess x \<or> is_Stop x) (fst (onExecutableStdErr q message raw l)) = []"
    by (simp add: fst_onExecutableStdErr handleRunStart_no_recovery handleRunComplete_no_recovery
          handleSnapshotTestFailuer_no_recovery handleWatchNotSupportedError_recovery)
  from assms(2) q have "handleWatchNotSupportedError q message =
      [Logging Warn (''detected watch not supported message in a not-watch process \"''
                 @ request_type (request q) @ ''\", will ignore this error'')]"
    by (simp add: handleWatchNotSupportedError_def)
  with assms(1) show "Logging Warn (''detected watch not supported message in a not-watch process \"''
                 @ request_type (request q) @ ''\", will ignore this error'')
               \<in> set (fst (onExecutableStdErr q message raw l))"
    by (simp add: fst_onExecutableStdErr)
qed

theorem watch_not_supported_recovery_witness:
  "\<not> shouldIgnoreOutput ''--watch is not supported without git/hg, please use --watchAll''
   \<and> WATCH_IS_NOT_SUPPORTED_REGEXP_test ''--watch is not supported without git/hg, please use --watchAll''
   \<and> filter (\<lambda>x. is_ScheduleProcess x \<or> is_Stop x)
        (fst (onExecutableStdErr watch_process
           ''--watch is not supported without git/hg, please use --watchAll''
           ''--watch is not supported without git/hg, please use --watchAll'' idle_listener))
       = [ScheduleProcess (Request ''watch-all-tests'' False None), Stop watch_process]
   \<and> filter (\<lambda>x. is_ScheduleProcess x \<or> is_Stop x)
        (fst (onExecutableStdErr all_tests_process
           ''--watch is not supported without git/hg, please use --watchAll''
           ''--watch is not supported without git/hg, please use --watchAll'' idle_listener))
       = []"
  using watch_not_supported_recovery
          [of "''--watch is not supported without git/hg, please use --watchAll''"
              watch_process
              "''--watch is not supported without git/hg, please use --watchAll''"
              idle_listener all_tests_process]
  by (simp add: eval_text)

subsection \<open>The exit event\<close>

text \<open>
  C8. Handling \<open>processClose\<close> fires exactly one \<open>exit\<close> event, for the process, with the exit
  code the listener has recorded and with the error that \<open>handleWatchProcessCrash\<close> returns.
  That error is a non-empty string exactly when the request type is \<open>watch-tests\<close> or
  \<open>watch-all-tests\<close> and \<open>stopReason\<close> is not \<open>on-demand\<close>, and is absent otherwise. No other
  stimulus fires \<open>exit\<close>: over any sequence the number of \<open>exit\<close> events is the number of
  \<open>processClose\<close> events, so one close in the lifetime of a process gives one \<open>exit\<close>. When
  \<open>processExit\<close> came before the close, the \<open>exit\<close> event carries the code of that
  \<open>processExit\<close>.
\<close>

theorem exit_event_on_close:
  "filter is_exit (fst (onEvent clean p (processClose code signal) l))
     = [Fire (Ev_exit p (snd (handleWatchProcessCrash p)) (exitCode l))]
   \<and> ((\<exists>msg. snd (handleWatchProcessCrash p) = Some msg \<and> msg \<noteq> [])
        \<longleftrightarrow> (request_type (request p) = ''watch-tests''
               \<or> request_type (request p) = ''watch-all-tests'')
             \<and> stopReason p \<noteq> Some ''on-demand'')
   \<and> (snd (handleWatchProcessCrash p) = None
        \<longleftrightarrow> \<not> ((request_type (request p) = ''watch-tests''
               \<or> request_type (request p) = ''watch-all-tests'')
             \<and> stopReason p \<noteq> Some ''on-demand''))
   \<and> length (filter is_exit (fst (run clean xs l))) = length (filter is_processClose xs)
   \<and> filter is_exit
        (fst (run clean [Raw p (processExit code' signal'), Raw p (processClose code signal)] l))
       = [Fire (Ev_exit p (snd (handleWatchProcessCrash p)) code')]"
proof (intro conjI)
  show "filter is_exit (fst (onEvent clean p (processClose code signal) l))
     = [Fire (Ev_exit p (snd (handleWatchProcessCrash p)) (exitCode l))]"
    by (simp add: onProcessClose_exit)
next
  show "(\<exists>msg. snd (handleWatchProcessCrash p) = Some msg \<and> msg \<noteq> [])
        \<longleftrightarrow> (request_type (request p) = ''watch-tests''
               \<or> request_type (request p) = ''watch-all-tests'')
             \<and> stopReason p \<noteq> Some ''on-demand''"
    by (simp add: handleWatchProcessCrash_error)
next
  show "snd (handleWatchProcessCrash p) = None
        \<longleftrightarrow> \<not> ((request_type (request p) = ''watch-tests''
               \<or> request_type (request p) = ''watch-all-tests'')
             \<and> stopReason p \<noteq> Some ''on-demand'')"
    by (simp add: handleWatchProcessCrash_error)
next
  show "length (filter is_exit (fst (run clean xs l))) = length (filter is_processClose xs)"
    by (rule run_exit)
next
  have "filter is_exit (fst (onProcessExit p code' signal' l)) = []"
    by (simp add: onProcessExit_def Abstract_onProcessExit_def)
  moreover have "exitCode (snd (onProcessExit p code' signal' l)) = code'"
    by (simp add: onProcessExit_def)
  ultimately show "filter is_exit
        (fst (run clean [Raw p (processExit code' signal'), Raw p (processClose code signal)] l))
       = [Fire (Ev_exit p (snd (handleWatchProcessCrash p)) code')]"
    by (simp only: run_Cons step.simps onEvent.simps filter_append)
       (simp add: onProcessClose_eq handleWatchProcessCrash_no_exit)
qed

theorem exit_event_on_close_witness:
  "filter is_exit
     (fst (run (\<lambda>s. s) [Raw watch_process (processExit (Some 1) None),
                          Raw watch_process (processClose (Some 1) None)] running_listener))
     = [Fire (Ev_exit watch_process (Some ''Jest process \"watch-tests\" ended unexpectedly'')
                (Some 1))]
   \<and> filter is_exit
     (fst (run (\<lambda>s. s) [Raw stopped_process (processExit None (Some ''SIGTERM'')),
                          Raw stopped_process (processClose None (Some ''SIGTERM''))] running_listener))
     = [Fire (Ev_exit stopped_process None None)]"
  using exit_event_on_close
          [of "\<lambda>s. s" watch_process "Some 1" None running_listener
              "[Raw watch_process (processExit (Some 1) None),
                Raw watch_process (processClose (Some 1) None)]" "Some 1" None]
        exit_event_on_close
          [of "\<lambda>s. s" stopped_process None "Some ''SIGTERM''" running_listener
              "[Raw stopped_process (processExit None (Some ''SIGTERM'')),
                Raw stopped_process (processClose None (Some ''SIGTERM''))]" None "Some ''SIGTERM''"]
  by (simp add: handleWatchProcessCrash_def Let_def)

section \<open>Properties of the listing listener\<close>

lemma List_run_Cons:
  "fst (List_run X p (e # es) l) = fst (List_onEvent X p e l) @ fst (List_run X p es (snd (List_onEvent X p e l)))"
  "snd (List_run X p (e # es) l) = snd (List_run X p es (snd (List_onEvent X p e l)))"
  by (simp_all split: prod.splits)

lemma List_onEvent_fields:
  "buffer (snd (List_onEvent X p e l)) = buffer l @ stdout_of X e"
  "stderrOutput (snd (List_onEvent X p e l)) = stderrOutput l @ stderr_of e"
  "\<not> is_processExit e \<Longrightarrow> listExitCode (snd (List_onEvent X p e l)) = listExitCode l"
  by (cases e; simp add: List_onExecutableStdErr_def List_onExecutableOutput_def
        List_onProcessClose_def List_onProcessExit_def split: list.splits sum.splits)+

lemma List_run_buffer:
  "buffer (snd (List_run X p es l)) = buffer l @ concat (map (stdout_of X) es)"
  by (induction es arbitrary: l) (simp_all only: List_run_Cons List_onEvent_fields, simp_all)

lemma List_run_stderrOutput:
  "stderrOutput (snd (List_run X p es l)) = stderrOutput l @ concat (map stderr_of es)"
  by (induction es arbitrary: l) (simp_all only: List_run_Cons List_onEvent_fields, simp_all)

lemma List_run_listExitCode:
  "\<forall>e \<in> set es. \<not> is_processExit e \<Longrightarrow> listExitCode (snd (List_run X p es l)) = listExitCode l"
proof (induction es arbitrary: l)
  case Nil
  then show ?case by simp
next
  case (Cons e es)
  then have "listExitCode (snd (List_onEvent X p e l)) = listExitCode l"
    by (simp add: List_onEvent_fields)
  moreover from Cons have "listExitCode (snd (List_run X p es (snd (List_onEvent X p e l))))
      = listExitCode (snd (List_onEvent X p e l))" by simp
  ultimately show ?case by (simp only: List_run_Cons)
qed

lemmas List_run_fields = List_run_buffer List_run_stderrOutput List_run_listExitCode




lemma List_onProcessClose_OnResult:
  "filter is_OnResult (fst (List_onProcessClose X p l)) =
     (if listExitCode l \<noteq> Some 0 then [OnResult None (Some (stderrOutput l)) (listExitCode l)]
      else if match_JsonArrayRegexp None (buffer l) = [] then [OnResult (Some []) None None]
      else (case reduce_files X [] (match_JsonArrayRegexp None (buffer l)) of
              Inr uriFiles \<Rightarrow> [OnResult (Some uriFiles) None None]
            | Inl e \<Rightarrow> [OnResult None (Some (toErrorString X e)) (listExitCode l)]))"
  by (simp add: List_onProcessClose_def Abstract_onProcessClose_def split: list.splits sum.splits)



text \<open>
  C10. When no \<open>processExit\<close> was delivered to a new listener before \<open>processClose\<close>, the
  exit code is still undefined, which is not 0: the callback is called once with no list,
  the stderr text received so far and an undefined exit code, whatever the stdout buffer holds.
\<close>

theorem list_close_without_exit:
  assumes "\<forall>e \<in> set es. \<not> is_processExit e"
  shows "filter is_OnResult
           (fst (List_onEvent X p (processClose code signal)
                   (snd (List_run X p es new_ListTestFileListener))))
         = [OnResult None (Some (concat (map stderr_of es))) None]"
proof -
  from assms have "listExitCode (snd (List_run X p es new_ListTestFileListener)) = None"
    by (simp add: List_run_fields new_ListTestFileListener_def)
  then show ?thesis
    by (simp add: List_onProcessClose_OnResult List_run_fields new_ListTestFileListener_def)
qed

theorem list_close_without_exit_witness:
  "filter is_OnResult
     (fst (List_run sample_externals list_process
        [executableOutput ''[\"/a.test.js\",\"\",\"/b.test.js\"]'', executableStdErr ''boom'',
         processClose (Some 0) None]
        new_ListTestFileListener))
     = [OnResult None (Some ''boom'') None]"
  using list_close_without_exit
          [of "[executableOutput ''[\"/a.test.js\",\"\",\"/b.test.js\"]'', executableStdErr ''boom'']"
              sample_externals list_process "Some 0" None]
  by (simp add: eval_list)

end
